theory Spec2Isabelle
  imports Complex_Main "HOL-Library.Multiset"
begin

section \<open>Values of the Python run time\<close>

text \<open>
  A numpy float64 is modelled by its mathematical value when it is finite, and by one of the
  three special values otherwise. Arithmetic on finite values is exact (no rounding, no
  overflow, no underflow, no signed zero); the special values follow IEEE 754, which is what
  numpy computes: a division by zero yields an infinity or a NaN and raises nothing.
\<close>

datatype npfloat = Fin real | PInf | NInf | NaN

fun fneg :: "npfloat \<Rightarrow> npfloat" where
  "fneg (Fin x) = Fin (- x)"
| "fneg PInf = NInf"
| "fneg NInf = PInf"
| "fneg NaN = NaN"

fun fadd :: "npfloat \<Rightarrow> npfloat \<Rightarrow> npfloat" where
  "fadd (Fin x) (Fin y) = Fin (x + y)"
| "fadd NaN _ = NaN"
| "fadd _ NaN = NaN"
| "fadd PInf NInf = NaN"
| "fadd NInf PInf = NaN"
| "fadd PInf _ = PInf"
| "fadd _ PInf = PInf"
| "fadd NInf _ = NInf"
| "fadd _ NInf = NInf"

definition fsub :: "npfloat \<Rightarrow> npfloat \<Rightarrow> npfloat" where
  "fsub a b = fadd a (fneg b)"

fun fsign :: "npfloat \<Rightarrow> int" where
  "fsign (Fin x) = (if x = 0 then 0 else if 0 < x then 1 else - 1)"
| "fsign PInf = 1"
| "fsign NInf = - 1"
| "fsign NaN = 0"

fun fmul :: "npfloat \<Rightarrow> npfloat \<Rightarrow> npfloat" where
  "fmul (Fin x) (Fin y) = Fin (x * y)"
| "fmul NaN _ = NaN"
| "fmul _ NaN = NaN"
| "fmul a b =
     (if fsign a * fsign b = 0 then NaN else if 0 < fsign a * fsign b then PInf else NInf)"

fun fdiv :: "npfloat \<Rightarrow> npfloat \<Rightarrow> npfloat" where
  "fdiv (Fin x) (Fin y) =
     (if y = 0 then (if x = 0 then NaN else if 0 < x then PInf else NInf) else Fin (x / y))"
| "fdiv NaN _ = NaN"
| "fdiv _ NaN = NaN"
| "fdiv (Fin x) _ = Fin 0"
| "fdiv PInf (Fin y) = (if 0 \<le> y then PInf else NInf)"
| "fdiv NInf (Fin y) = (if 0 \<le> y then NInf else PInf)"
| "fdiv _ _ = NaN"

fun fsqrt :: "npfloat \<Rightarrow> npfloat" where
  "fsqrt (Fin x) = (if x < 0 then NaN else Fin (sqrt x))"
| "fsqrt PInf = PInf"
| "fsqrt NInf = NaN"
| "fsqrt NaN = NaN"

text \<open>\<^verbatim>\<open>x // d\<close> for a finite divisor \<open>d\<close> (the source divides by the literal 2.3).\<close>

definition floor_divide :: "npfloat \<Rightarrow> real \<Rightarrow> npfloat" where
  "floor_divide x d =
     (if d = 0 then fdiv x (Fin 0)
      else case x of Fin a \<Rightarrow> Fin (of_int \<lfloor>a / d\<rfloor>) | _ \<Rightarrow> NaN)"

text \<open>A one-dimensional numpy array of shape \<open>(n,)\<close> is the list of its \<open>n\<close> entries.\<close>

type_synonym ndarray = "npfloat list"

definition linalg_norm :: "ndarray \<Rightarrow> npfloat" where
  "linalg_norm v = fsqrt (foldr fadd (map (\<lambda>x. fmul x x) v) (Fin 0))"

text \<open>
  The text of an exception message. The default \<^verbatim>\<open>repr\<close> of a \<^verbatim>\<open>Node\<close> object prints
  its memory address, so it is kept symbolic: \<open>Repr n\<close> is the \<^verbatim>\<open>repr\<close> of node \<open>n\<close>.
\<close>

datatype piece = Lit string | Repr nat

type_synonym message = "piece list"

datatype exn =
    AssertionError message
  | ValueError message
  | ZeroDivisionError message
  | IndexError message
  | KeyError nat
  | AttributeError message

text \<open>\<^verbatim>\<open>str(e)\<close>, as the f-string \<^verbatim>\<open>f"{e}"\<close> computes it.\<close>

fun exn_str :: "exn \<Rightarrow> message" where
  "exn_str (AssertionError m) = m"
| "exn_str (ValueError m) = m"
| "exn_str (ZeroDivisionError m) = m"
| "exn_str (IndexError m) = m"
| "exn_str (KeyError n) = [Repr n]"
| "exn_str (AttributeError m) = m"

text \<open>
  A value held by the queue: an object that is not a list, or a Python list of values.
\<close>

datatype 'a pyval = Obj 'a | PyList "'a pyval list"

fun isinstance_list :: "'a pyval \<Rightarrow> bool" where
  "isinstance_list (Obj _) = False"
| "isinstance_list (PyList _) = True"

fun elements :: "'a pyval \<Rightarrow> 'a pyval list" where
  "elements (Obj x) = [Obj x]"
| "elements (PyList xs) = xs"

section \<open>The queue (class FIFO)\<close>

record 'a FIFO =
  items :: "'a pyval list"

definition FIFO_init :: "'a FIFO" where
  "FIFO_init = \<lparr>items = []\<rparr>"

definition enqueue :: "'a FIFO \<Rightarrow> 'a pyval \<Rightarrow> bool \<Rightarrow> 'a FIFO" where
  "enqueue q item is_list =
     (if is_list \<and> isinstance_list item
      then q\<lparr>items := items q @ elements item\<rparr>
      else q\<lparr>items := items q @ [item]\<rparr>)"

definition is_empty :: "'a FIFO \<Rightarrow> bool" where
  "is_empty q = (length (items q) = 0)"

definition size_fifo :: "'a FIFO \<Rightarrow> nat" where
  "size_fifo q = length (items q)"

definition dequeue :: "'a FIFO \<Rightarrow> (exn + 'a pyval) \<times> 'a FIFO" where
  "dequeue q =
     (if is_empty q then (Inl (IndexError [Lit ''dequeue from an empty queue'']), q)
      else (Inr (hd (items q)), q\<lparr>items := tl (items q)\<rparr>))"

section \<open>The program state\<close>

text \<open>
  A \<^verbatim>\<open>Node\<close> object is referred to by its \<^verbatim>\<open>unique_id\<close>: the class counter is only ever
  incremented by the program (\<^verbatim>\<open>_get_unique_id\<close> is never called with \<^verbatim>\<open>reset=True\<close>), so
  the nodes created so far are exactly the ids \<open>1 .. current_id\<close>. The heap maps an id to the
  attributes of that node.
\<close>

record node =
  coordinates :: ndarray
  connections :: "nat set"

text \<open>
  \<open>cache\<close> is the dictionary in the closure of the decorator \<^verbatim>\<open>cache_nodes\<close>, keyed by
  the sorted tuple of ids. \<open>rng\<close> is the sequence of values that the coming calls of
  \<^verbatim>\<open>random.random()\<close> return. \<open>objects\<close> counts the \<^verbatim>\<open>Triangle\<close> objects constructed so
  far: Python compares triangles by identity, and the model numbers them in the order of
  their construction.
\<close>

record state =
  current_id :: nat
  heap :: "nat \<Rightarrow> node"
  cache :: "nat list \<rightharpoonup> nat"
  rng :: "nat \<Rightarrow> real"
  objects :: nat

definition initial_state :: "(nat \<Rightarrow> real) \<Rightarrow> state" where
  "initial_state r =
     \<lparr>current_id = 0, heap = (\<lambda>_. \<lparr>coordinates = [], connections = {}\<rparr>),
      cache = Map.empty, rng = r, objects = 0\<rparr>"

text \<open>
  A call either returns a value or raises; in both cases the mutations made so far remain.
\<close>

type_synonym 'a action = "state \<Rightarrow> (exn + 'a) \<times> state"

definition returns :: "'a \<Rightarrow> 'a action" where
  "returns x s = (Inr x, s)"

definition raises :: "exn \<Rightarrow> 'a action" where
  "raises e s = (Inl e, s)"

definition and_then :: "'a action \<Rightarrow> ('a \<Rightarrow> 'b action) \<Rightarrow> 'b action" where
  "and_then m f s = (case m s of (Inl e, s') \<Rightarrow> (Inl e, s') | (Inr x, s') \<Rightarrow> f x s')"

definition coords :: "state \<Rightarrow> nat \<Rightarrow> ndarray" where
  "coords s n = coordinates (heap s n)"

definition conns :: "state \<Rightarrow> nat \<Rightarrow> nat set" where
  "conns s n = connections (heap s n)"

definition set_connections :: "nat \<Rightarrow> nat set \<Rightarrow> state \<Rightarrow> state" where
  "set_connections n C s = s\<lparr>heap := (heap s)(n := (heap s n)\<lparr>connections := C\<rparr>)\<rparr>"

section \<open>class Node\<close>

definition get_unique_id :: "bool \<Rightarrow> state \<Rightarrow> nat \<times> state" where
  "get_unique_id reset s =
     (let s' = (if reset then s\<lparr>current_id := 0\<rparr> else s\<lparr>current_id := current_id s + 1\<rparr>)
      in (current_id s', s'))"

definition Node_init :: "npfloat \<Rightarrow> npfloat \<Rightarrow> state \<Rightarrow> nat \<times> state" where
  "Node_init x y s =
     (case get_unique_id False s of
        (uid, s') \<Rightarrow>
          (uid, s'\<lparr>heap := (heap s')(uid := \<lparr>coordinates = [x, y], connections = {}\<rparr>)\<rparr>))"

definition add_connection :: "nat \<Rightarrow> nat \<Rightarrow> unit action" where
  "add_connection self other_node s =
     (if other_node = self
      then raises (AssertionError [Lit ''A node cannot connect to itself.'']) s
      else if other_node \<notin> conns s self
      then (let s1 = set_connections self (insert other_node (conns s self)) s;
                s2 = set_connections other_node (insert self (conns s1 other_node)) s1
            in returns () s2)
      else returns () s)"

definition has_connection :: "state \<Rightarrow> nat \<Rightarrow> nat \<Rightarrow> bool" where
  "has_connection s self other_node = (other_node \<in> conns s self)"

text \<open>
  \<^verbatim>\<open>set.remove\<close> raises \<^verbatim>\<open>KeyError\<close> on an absent element: the second removal does so
  when the other node does not hold the back reference.
\<close>

definition remove_connection :: "nat \<Rightarrow> nat \<Rightarrow> unit action" where
  "remove_connection self other_node s =
     (if other_node \<in> conns s self
      then (let s1 = set_connections self (conns s self - {other_node}) s
            in if self \<in> conns s1 other_node
               then returns () (set_connections other_node (conns s1 other_node - {self}) s1)
               else raises (KeyError self) s1)
      else raises (ValueError [Lit ''No connection exists with the specified node.'']) s)"

section \<open>The displacement rule\<close>

definition random :: "state \<Rightarrow> real \<times> state" where
  "random s = (rng s 0, s\<lparr>rng := (\<lambda>i. rng s (Suc i))\<rparr>)"

text \<open>\<^verbatim>\<open>random.uniform(a, b)\<close> is \<^verbatim>\<open>a + (b - a) * self.random()\<close>.\<close>

definition uniform :: "npfloat \<Rightarrow> npfloat \<Rightarrow> state \<Rightarrow> npfloat \<times> state" where
  "uniform a b s = (case random s of (u, s') \<Rightarrow> (fadd a (fmul (fsub b a) (Fin u)), s'))"

text \<open>
  An array divided by a numpy scalar: elementwise, and never an exception (a zero divisor
  gives \<open>NaN\<close> or an infinity, and a warning).
\<close>

definition np_divide :: "ndarray \<Rightarrow> npfloat \<Rightarrow> exn + ndarray" where
  "np_divide v d = Inr (map (\<lambda>x. fdiv x d) v)"

definition random_perpendicular_point :: "ndarray \<Rightarrow> ndarray \<Rightarrow> npfloat \<Rightarrow> ndarray action" where
  "random_perpendicular_point start end roughtness s =
     (if length start \<noteq> 2 \<or> length end \<noteq> 2
      then raises (ValueError [Lit ''Both 'start' and 'end' must be 2-dimensional vectors.'']) s
      else
        let segment_vector = map2 fsub end start;
            norm = linalg_norm segment_vector
        in case np_divide segment_vector norm of
             Inl (ZeroDivisionError _) \<Rightarrow>
               raises (ZeroDivisionError [Lit
                 ''Cannot create a normal from a zero-length segment ('start' and 'end' are identical).'']) s
           | Inl e \<Rightarrow> raises e s
           | Inr unit_segment_vector \<Rightarrow>
               let normal_vector = [fneg (unit_segment_vector ! 1), unit_segment_vector ! 0];
                   alpha = fmul (floor_divide norm 2.3) roughtness
               in case uniform (fneg alpha) alpha s of
                    (displacement, s') \<Rightarrow>
                      let midpoint = map (\<lambda>x. fdiv x (Fin 2)) (map2 fadd start end)
                      in returns
                           (map2 fadd (map (\<lambda>x. fmul x displacement) normal_vector) midpoint) s')"

section \<open>The midpoint cache and \<^verbatim>\<open>create_new_node\<close>\<close>

text \<open>The decorator: the key is the sorted tuple of the ids of the arguments.\<close>

definition cache_nodes :: "(nat \<Rightarrow> nat \<Rightarrow> nat action) \<Rightarrow> nat \<Rightarrow> nat \<Rightarrow> nat action" where
  "cache_nodes func node_a node_b s =
     (let key = sort [node_a, node_b]
      in case cache s key of
           Some r \<Rightarrow> returns r s
         | None \<Rightarrow>
             (case func node_a node_b s of
                (Inl e, s') \<Rightarrow> (Inl e, s')
              | (Inr r, s') \<Rightarrow> returns r (s'\<lparr>cache := (cache s')(key \<mapsto> r)\<rparr>)))"

text \<open>\<^verbatim>\<open>x, y = ...\<close>: unpacking an array that has not two entries raises.\<close>

definition unpack2 :: "ndarray \<Rightarrow> (npfloat \<times> npfloat) action" where
  "unpack2 p =
     (case p of
        [x, y] \<Rightarrow> returns (x, y)
      | [] \<Rightarrow> raises (ValueError [Lit ''not enough values to unpack (expected 2, got 0)''])
      | [x] \<Rightarrow> raises (ValueError [Lit ''not enough values to unpack (expected 2, got 1)''])
      | _ \<Rightarrow> raises (ValueError [Lit ''too many values to unpack (expected 2)'']))"

text \<open>The body of the \<^verbatim>\<open>try\<close> block of \<^verbatim>\<open>create_new_node\<close>.\<close>

definition create_new_node_try :: "nat \<Rightarrow> nat \<Rightarrow> nat action" where
  "create_new_node_try node_a node_b s =
     and_then (random_perpendicular_point (coords s node_a) (coords s node_b) (Fin 0.3))
       (\<lambda>p. and_then (unpack2 p)
         (\<lambda>(x, y) s1. case Node_init x y s1 of
            (new_node, s2) \<Rightarrow>
              and_then (add_connection new_node node_a)
                (\<lambda>_. and_then (add_connection new_node node_b)
                  (\<lambda>_. and_then (remove_connection node_a node_b)
                    (\<lambda>_. returns new_node))) s2)) s"

text \<open>The undecorated function.\<close>

definition create_new_node_func :: "nat \<Rightarrow> nat \<Rightarrow> nat action" where
  "create_new_node_func node_a node_b s =
     (if \<not> has_connection s node_a node_b
      then raises (ValueError
             [Lit ''Nodes must be connected to create a new node between them.'']) s
      else case create_new_node_try node_a node_b s of
             (Inl e, s') \<Rightarrow>
               raises (ValueError
                 (Lit ''An error occurred while creating a new node: '' # exn_str e)) s'
           | (Inr new_node, s') \<Rightarrow> returns new_node s')"

definition create_new_node :: "nat \<Rightarrow> nat \<Rightarrow> nat action" where
  "create_new_node = cache_nodes create_new_node_func"

section \<open>class Triangle\<close>

record triangle =
  ident :: nat
  node_a :: nat
  node_b :: nat
  node_c :: nat

definition create_edges :: "triangle \<Rightarrow> unit action" where
  "create_edges t =
     and_then (add_connection (node_a t) (node_b t))
       (\<lambda>_. and_then (add_connection (node_a t) (node_c t))
         (\<lambda>_. add_connection (node_b t) (node_c t)))"

definition Triangle_init :: "nat \<Rightarrow> nat \<Rightarrow> nat \<Rightarrow> triangle action" where
  "Triangle_init a b c s =
     (let t = \<lparr>ident = objects s, node_a = a, node_b = b, node_c = c\<rparr>
      in and_then (create_edges t) (\<lambda>_. returns t) (s\<lparr>objects := objects s + 1\<rparr>))"

definition subdivide :: "triangle \<Rightarrow> triangle list action" where
  "subdivide t =
     and_then (create_new_node (node_a t) (node_b t)) (\<lambda>node_d.
     and_then (create_new_node (node_b t) (node_c t)) (\<lambda>node_e.
     and_then (create_new_node (node_a t) (node_c t)) (\<lambda>node_f.
     and_then (Triangle_init node_d (node_b t) node_e) (\<lambda>triangle_1.
     and_then (Triangle_init (node_a t) node_d node_f) (\<lambda>triangle_2.
     and_then (Triangle_init node_f node_e (node_c t)) (\<lambda>triangle_3.
     and_then (Triangle_init node_d node_e node_f) (\<lambda>triangle_4.
     returns [triangle_1, triangle_2, triangle_3, triangle_4])))))))"

text \<open>
  \<^verbatim>\<open>pygame.draw.polygon(screen, color, points, 1)\<close>: the screen is the list of the outlines
  handed to the drawing primitive, each with its colour, its points and its line width.
\<close>

type_synonym color = "nat \<times> nat \<times> nat"

type_synonym screen = "(color \<times> ndarray list \<times> nat) list"

definition draw :: "state \<Rightarrow> triangle \<Rightarrow> screen \<Rightarrow> color \<Rightarrow> screen" where
  "draw s t scr color =
     scr @ [(color, [coords s (node_a t), coords s (node_b t), coords s (node_c t)], 1)]"

section \<open>The main program\<close>

definition BLACK :: color where
  "BLACK = (0, 0, 0)"

text \<open>Lines 22 to 30 of \<^verbatim>\<open>terrain.py\<close>: the seed triangle and the queue that holds it.\<close>

definition seed :: "(triangle \<times> triangle FIFO) action" where
  "seed s =
     (case Node_init (Fin 100) (Fin 600) s of (A, s1) \<Rightarrow>
      case Node_init (Fin 350) (Fin 200) s1 of (B, s2) \<Rightarrow>
      case Node_init (Fin 600) (Fin 600) s2 of (C, s3) \<Rightarrow>
        and_then (Triangle_init A B C)
          (\<lambda>root_triangle. returns (root_triangle, enqueue FIFO_init (Obj root_triangle) False))
          s3)"

text \<open>
  The expansion loop, lines 34 to 37, run \<open>n\<close> times. An item that is not a triangle has
  no method \<^verbatim>\<open>subdivide\<close>.
\<close>

fun expand :: "nat \<Rightarrow> state \<Rightarrow> triangle FIFO \<Rightarrow> (exn + unit) \<times> state \<times> triangle FIFO" where
  "expand 0 s queue = (Inr (), s, queue)"
| "expand (Suc n) s queue =
     (case dequeue queue of
        (Inl e, queue') \<Rightarrow> (Inl e, s, queue')
      | (Inr (PyList xs), queue') \<Rightarrow>
          (Inl (AttributeError [Lit ''list object has no attribute subdivide'']), s, queue')
      | (Inr (Obj current_triangle), queue') \<Rightarrow>
          (case subdivide current_triangle s of
             (Inl e, s') \<Rightarrow> (Inl e, s', queue')
           | (Inr triangles, s') \<Rightarrow>
               expand n s' (enqueue queue' (PyList (map Obj triangles)) True)))"

definition expansion :: "nat \<Rightarrow> state \<Rightarrow> triangle FIFO \<Rightarrow> (exn + unit) \<times> state \<times> triangle FIFO" where
  "expansion depth s queue = expand ((4 ^ depth - 1) div 3) s queue"

text \<open>
  The triangles that the first \<open>n\<close> iterations of the expansion loop dequeue and subdivide,
  in that order.
\<close>

fun subdivided :: "nat \<Rightarrow> state \<Rightarrow> triangle FIFO \<Rightarrow> triangle list" where
  "subdivided 0 s queue = []"
| "subdivided (Suc n) s queue =
     (case dequeue queue of
        (Inr (Obj current_triangle), queue') \<Rightarrow>
          (case subdivide current_triangle s of
             (Inr triangles, s') \<Rightarrow>
               current_triangle #
                 subdivided n s' (enqueue queue' (PyList (map Obj triangles)) True)
           | (Inl e, s') \<Rightarrow> [])
      | _ \<Rightarrow> [])"

text \<open>
  The drawing loop of one frame, lines 53 to 56: \<^verbatim>\<open>range(queue.size())\<close> is evaluated once.
\<close>

fun draw_triangles ::
  "nat \<Rightarrow> state \<Rightarrow> screen \<Rightarrow> triangle FIFO \<Rightarrow> (exn + unit) \<times> screen \<times> triangle FIFO" where
  "draw_triangles 0 s scr queue = (Inr (), scr, queue)"
| "draw_triangles (Suc n) s scr queue =
     (case dequeue queue of
        (Inl e, queue') \<Rightarrow> (Inl e, scr, queue')
      | (Inr (PyList xs), queue') \<Rightarrow>
          (Inl (AttributeError [Lit ''list object has no attribute draw'']), scr, queue')
      | (Inr (Obj current_triangle), queue') \<Rightarrow>
          draw_triangles n s (draw s current_triangle scr BLACK)
            (enqueue queue' (Obj current_triangle) False))"

definition draw_frame ::
  "state \<Rightarrow> screen \<Rightarrow> triangle FIFO \<Rightarrow> (exn + unit) \<times> screen \<times> triangle FIFO" where
  "draw_frame s scr queue = draw_triangles (size_fifo queue) s scr queue"

section \<open>Well-formed states\<close>

text \<open>The nodes created so far.\<close>

definition allocated :: "state \<Rightarrow> nat \<Rightarrow> bool" where
  "allocated s n \<longleftrightarrow> 0 < n \<and> n \<le> current_id s"

definition symmetric :: "state \<Rightarrow> bool" where
  "symmetric s \<longleftrightarrow> (\<forall>a b. b \<in> conns s a \<longrightarrow> a \<in> conns s b)"

definition irreflexive :: "state \<Rightarrow> bool" where
  "irreflexive s \<longleftrightarrow> (\<forall>a. a \<notin> conns s a)"

text \<open>Only nodes that exist are connected.\<close>

definition closed_graph :: "state \<Rightarrow> bool" where
  "closed_graph s \<longleftrightarrow> (\<forall>a b. b \<in> conns s a \<longrightarrow> allocated s a \<and> allocated s b)"

definition graph_ok :: "state \<Rightarrow> bool" where
  "graph_ok s \<longleftrightarrow> symmetric s \<and> irreflexive s \<and> closed_graph s"

text \<open>Every node holds an array of shape \<open>(2,)\<close>, as \<^verbatim>\<open>Node(x, y)\<close> builds it from scalars.\<close>

definition well_shaped :: "state \<Rightarrow> bool" where
  "well_shaped s \<longleftrightarrow> (\<forall>n. allocated s n \<longrightarrow> length (coords s n) = 2)"

text \<open>
  A cached midpoint exists and is younger than the two ends of its edge; distinct keys hold
  distinct midpoints.
\<close>

definition cache_ok :: "state \<Rightarrow> bool" where
  "cache_ok s \<longleftrightarrow>
     (\<forall>k m. cache s k = Some m \<longrightarrow> allocated s m \<and> (\<forall>x \<in> set k. x < m)) \<and>
     (\<forall>k k' m. cache s k = Some m \<and> cache s k' = Some m \<longrightarrow> k = k')"

definition mesh_inv :: "state \<Rightarrow> bool" where
  "mesh_inv s \<longleftrightarrow> graph_ok s \<and> well_shaped s \<and> cache_ok s"

text \<open>An edge is present, or it has been replaced by its two halves and its midpoint is cached.\<close>

definition linked :: "state \<Rightarrow> nat \<Rightarrow> nat \<Rightarrow> bool" where
  "linked s a b \<longleftrightarrow> b \<in> conns s a \<or> cache s (sort [a, b]) \<noteq> None"

definition valid_triangle :: "state \<Rightarrow> triangle \<Rightarrow> bool" where
  "valid_triangle s t \<longleftrightarrow>
     allocated s (node_a t) \<and> allocated s (node_b t) \<and> allocated s (node_c t) \<and>
     node_a t \<noteq> node_b t \<and> node_b t \<noteq> node_c t \<and> node_a t \<noteq> node_c t \<and>
     linked s (node_a t) (node_b t) \<and> linked s (node_b t) (node_c t) \<and>
     linked s (node_a t) (node_c t)"

text \<open>
  \<open>edge_split s a b s'\<close>: \<open>s'\<close> is \<open>s\<close> after the edge between \<open>a\<close> and \<open>b\<close> was replaced by
  its two halves through one new node, the midpoint cached and one random value drawn.
\<close>

definition edge_split :: "state \<Rightarrow> nat \<Rightarrow> nat \<Rightarrow> state \<Rightarrow> bool" where
  "edge_split s a b s' \<longleftrightarrow>
     current_id s' = Suc (current_id s) \<and>
     (\<forall>x. conns s' x =
        (if x = Suc (current_id s) then {a, b}
         else if x = a then insert (Suc (current_id s)) (conns s a - {b})
         else if x = b then insert (Suc (current_id s)) (conns s b - {a})
         else conns s x)) \<and>
     (\<forall>x. x \<noteq> Suc (current_id s) \<longrightarrow> coords s' x = coords s x) \<and>
     length (coords s' (Suc (current_id s))) = 2 \<and>
     cache s' = (cache s)(sort [a, b] \<mapsto> Suc (current_id s)) \<and>
     objects s' = objects s \<and>
     rng s' = (\<lambda>i. rng s (Suc i))"

text \<open>What every step of a subdivision keeps: nodes, objects, cache entries and links.\<close>

definition extends :: "state \<Rightarrow> state \<Rightarrow> bool" where
  "extends s s' \<longleftrightarrow>
     current_id s \<le> current_id s' \<and> objects s \<le> objects s' \<and>
     (\<forall>k v. cache s k = Some v \<longrightarrow> cache s' k = Some v) \<and>
     (\<forall>x y. linked s x y \<longrightarrow> linked s' x y)"

text \<open>A step that only adds edges.\<close>

definition edges_added :: "state \<Rightarrow> state \<Rightarrow> bool" where
  "edges_added s s' \<longleftrightarrow>
     (\<forall>x. conns s x \<subseteq> conns s' x) \<and> (\<forall>x. coords s' x = coords s x) \<and>
     current_id s' = current_id s \<and> cache s' = cache s \<and> rng s' = rng s \<and>
     objects s' = objects s"

text \<open>
  The queue of the expansion loop: valid triangles, each an object that exists, no object
  twice.
\<close>

definition queue_ok :: "state \<Rightarrow> triangle list \<Rightarrow> bool" where
  "queue_ok s ts \<longleftrightarrow>
     mesh_inv s \<and> (\<forall>t \<in> set ts. valid_triangle s t \<and> ident t < objects s) \<and>
     distinct (map ident ts)"

text \<open>
  The states that the program can be in: the initial one, and the state after any call of
  the constructor of a node, of \<^verbatim>\<open>add_connection\<close>, of \<^verbatim>\<open>remove_connection\<close>, of
  \<^verbatim>\<open>create_new_node\<close> or of the constructor of a triangle on nodes that exist, whether
  the call returns or raises.
\<close>

inductive reachable :: "state \<Rightarrow> bool" where
  start: "reachable (initial_state r)"
| new_node: "reachable s \<Longrightarrow> reachable (snd (Node_init x y s))"
| connect:
    "reachable s \<Longrightarrow> allocated s a \<Longrightarrow> allocated s b \<Longrightarrow>
       reachable (snd (add_connection a b s))"
| disconnect:
    "reachable s \<Longrightarrow> allocated s a \<Longrightarrow> allocated s b \<Longrightarrow>
       reachable (snd (remove_connection a b s))"
| midpoint:
    "reachable s \<Longrightarrow> allocated s a \<Longrightarrow> allocated s b \<Longrightarrow>
       reachable (snd (create_new_node a b s))"
| new_triangle:
    "reachable s \<Longrightarrow> allocated s a \<Longrightarrow> allocated s b \<Longrightarrow> allocated s c \<Longrightarrow>
       reachable (snd (Triangle_init a b c s))"

section \<open>Example states\<close>

text \<open>
  The state of the main program when the expansion loop starts (with a generator that
  draws 0 every time), and its seed triangle.
\<close>

definition seed_triangle :: triangle where
  "seed_triangle = \<lparr>ident = 0, node_a = 1, node_b = 2, node_c = 3\<rparr>"

definition seed_state :: state where
  "seed_state = snd (seed (initial_state (\<lambda>_. 0)))"

text \<open>Two nodes and no edge.\<close>

definition two_nodes :: state where
  "two_nodes =
     snd (Node_init (Fin 4) (Fin 0) (snd (Node_init (Fin 0) (Fin 0) (initial_state (\<lambda>_. 0)))))"

text \<open>
  The seed state after \<^verbatim>\<open>A.coordinates = np.array([0, 0, 0])\<close>: node 1 holds an array of
  shape \<open>(3,)\<close>.
\<close>

definition misshapen :: state where
  "misshapen =
     seed_state\<lparr>heap := (heap seed_state)
       (1 := (heap seed_state 1)\<lparr>coordinates := [Fin 0, Fin 0, Fin 0]\<rparr>)\<rparr>"

section \<open>Properties of the queue\<close>

text \<open>
  C9: an item that is not a list, enqueued with \<^verbatim>\<open>is_list=True\<close>, is appended as one
  element; on a queue that was empty the next dequeue returns it.
\<close>

theorem enqueue_non_list_as_single:
  "\<not> isinstance_list item \<Longrightarrow>
     items (enqueue q item True) = items q @ [item] \<and>
     dequeue (enqueue FIFO_init item True) = (Inr item, FIFO_init)"
  by (simp add: enqueue_def dequeue_def is_empty_def FIFO_init_def)

theorem enqueue_non_list_as_single_witness:
  "\<not> isinstance_list (Obj (7::nat)) \<and>
     items (enqueue \<lparr>items = [Obj 1, PyList [Obj 2]]\<rparr> (Obj (7::nat)) True)
       = [Obj 1, PyList [Obj 2], Obj 7] \<and>
     dequeue (enqueue FIFO_init (Obj (7::nat)) True) = (Inr (Obj 7), FIFO_init)"
  using enqueue_non_list_as_single [of "Obj (7::nat)" "\<lparr>items = [Obj 1, PyList [Obj 2]]\<rparr>"]
  by simp

lemma dequeue_Cons: "dequeue \<lparr>items = x # xs\<rparr> = (Inr x, \<lparr>items = xs\<rparr>)"
  by (simp add: dequeue_def is_empty_def)

lemma enqueue_single: "enqueue \<lparr>items = xs\<rparr> (Obj x) b = \<lparr>items = xs @ [Obj x]\<rparr>"
  by (simp add: enqueue_def)

lemma enqueue_many: "enqueue \<lparr>items = xs\<rparr> (PyList ys) True = \<lparr>items = xs @ ys\<rparr>"
  by (simp add: enqueue_def)

lemma draw_triangles_rotate:
  "n \<le> length ts \<Longrightarrow>
     draw_triangles n s scr \<lparr>items = map Obj ts\<rparr> =
       (Inr (), foldl (\<lambda>scr t. draw s t scr BLACK) scr (take n ts),
        \<lparr>items = map Obj (drop n ts @ take n ts)\<rparr>)"
proof (induction n arbitrary: ts scr)
  case 0
  then show ?case by simp
next
  case (Suc n)
  then obtain t ts' where ts: "ts = t # ts'" by (cases ts) auto
  with Suc.prems have len: "n \<le> length (ts' @ [t])" by simp
  have "draw_triangles (Suc n) s scr \<lparr>items = map Obj ts\<rparr> =
          draw_triangles n s (draw s t scr BLACK) \<lparr>items = map Obj (ts' @ [t])\<rparr>"
    by (simp add: ts dequeue_Cons enqueue_single)
  also have "\<dots> =
      (Inr (), foldl (\<lambda>scr t. draw s t scr BLACK) (draw s t scr BLACK) (take n (ts' @ [t])),
       \<lparr>items = map Obj (drop n (ts' @ [t]) @ take n (ts' @ [t]))\<rparr>)"
    by (rule Suc.IH [OF len])
  finally show ?case using Suc.prems by (simp add: ts)
qed

text \<open>
  C6: one frame (as many iterations as the queue holds items, counted once before the
  loop) hands every triangle of the queue to the drawing primitive, front to back, and
  leaves the queue as it was: same items, same order.
\<close>

theorem frame_rotation:
  "items queue = map Obj ts \<Longrightarrow>
     draw_frame s scr queue = (Inr (), foldl (\<lambda>scr t. draw s t scr BLACK) scr ts, queue)"
proof -
  assume "items queue = map Obj ts"
  then have q: "queue = \<lparr>items = map Obj ts\<rparr>" by (cases queue) simp
  show ?thesis
    unfolding draw_frame_def size_fifo_def
    using draw_triangles_rotate [of "length ts" ts s scr] by (simp add: q)
qed

text \<open>The coordinates of the three seed nodes of the main program.\<close>

lemma seed_state_coords:
  "coords seed_state (Suc 0) = [Fin 100, Fin 600]"
  "coords seed_state 2 = [Fin 350, Fin 200]"
  "coords seed_state 3 = [Fin 600, Fin 600]"
  by (simp_all add: seed_state_def seed_def Node_init_def get_unique_id_def Triangle_init_def
      create_edges_def and_then_def add_connection_def set_connections_def conns_def coords_def
      returns_def raises_def initial_state_def Let_def)

theorem frame_rotation_witness:
  "items \<lparr>items = [Obj seed_triangle, Obj \<lparr>ident = 1, node_a = 2, node_b = 3, node_c = 1\<rparr>]\<rparr>
     = map Obj [seed_triangle, \<lparr>ident = 1, node_a = 2, node_b = 3, node_c = 1\<rparr>] \<and>
   draw_frame seed_state []
       \<lparr>items = [Obj seed_triangle, Obj \<lparr>ident = 1, node_a = 2, node_b = 3, node_c = 1\<rparr>]\<rparr>
     = (Inr (),
        [(BLACK, [[Fin 100, Fin 600], [Fin 350, Fin 200], [Fin 600, Fin 600]], 1),
         (BLACK, [[Fin 350, Fin 200], [Fin 600, Fin 600], [Fin 100, Fin 600]], 1)],
        \<lparr>items = [Obj seed_triangle, Obj \<lparr>ident = 1, node_a = 2, node_b = 3, node_c = 1\<rparr>]\<rparr>)"
  using frame_rotation [of
      "\<lparr>items = [Obj seed_triangle, Obj \<lparr>ident = 1, node_a = 2, node_b = 3, node_c = 1\<rparr>]\<rparr>"
      "[seed_triangle, \<lparr>ident = 1, node_a = 2, node_b = 3, node_c = 1\<rparr>]"
      seed_state "[]"]
  by (simp add: draw_def seed_state_coords seed_triangle_def)

section \<open>Properties of the displacement rule\<close>

lemma linalg_norm_2:
  "linalg_norm [Fin x, Fin y] = Fin (sqrt (x * x + y * y))"
  by (simp add: linalg_norm_def not_less)

text \<open>
  C2: on a segment of length zero the function raises nothing. The norm is zero, the
  division of the array by it gives \<open>NaN\<close> in both entries, and the function returns the
  array \<open>[NaN, NaN]\<close>.
\<close>

theorem degenerate_segment_returns_nan:
  "random_perpendicular_point [Fin x, Fin y] [Fin x, Fin y] (Fin roughtness) s
     = (Inr [NaN, NaN], snd (random s))"
  by (simp add: random_perpendicular_point_def np_divide_def fsub_def floor_divide_def
      uniform_def random_def returns_def Let_def linalg_norm_2)

theorem degenerate_segment_returns_nan_witness:
  "random_perpendicular_point [Fin 100, Fin 600] [Fin 100, Fin 600] (Fin 0.3)
       (initial_state (\<lambda>_. 1 / 2))
     = (Inr [NaN, NaN], initial_state (\<lambda>_. 1 / 2))"
  using degenerate_segment_returns_nan [of 100 600 "0.3" "initial_state (\<lambda>_. 1 / 2)"]
  by (simp add: random_def initial_state_def)

section \<open>Nodes and connections\<close>

lemma and_then_Inr: "m s = (Inr x, s') \<Longrightarrow> and_then m f s = f x s'"
  by (simp add: and_then_def)

lemma and_then_Inl: "m s = (Inl e, s') \<Longrightarrow> and_then m f s = (Inl e, s')"
  by (simp add: and_then_def)

lemma set_connections_fields [simp]:
  "conns (set_connections n C s) m = (if m = n then C else conns s m)"
  "coords (set_connections n C s) m = coords s m"
  "current_id (set_connections n C s) = current_id s"
  "cache (set_connections n C s) = cache s"
  "rng (set_connections n C s) = rng s"
  "objects (set_connections n C s) = objects s"
  by (simp_all add: set_connections_def conns_def coords_def)

lemma allocated_set_connections [simp]:
  "allocated (set_connections n C s) m = allocated s m"
  by (simp add: allocated_def)

lemma add_connection_self:
  "add_connection a a s = (Inl (AssertionError [Lit ''A node cannot connect to itself.'']), s)"
  by (simp add: add_connection_def raises_def)

lemma add_connection_new:
  "a \<noteq> b \<Longrightarrow> b \<notin> conns s a \<Longrightarrow>
     add_connection a b s =
       (Inr (), set_connections b (insert a (conns s b)) (set_connections a (insert b (conns s a)) s))"
  by (simp add: add_connection_def returns_def Let_def)

lemma add_connection_old:
  "a \<noteq> b \<Longrightarrow> b \<in> conns s a \<Longrightarrow> add_connection a b s = (Inr (), s)"
  by (simp add: add_connection_def returns_def)

lemma remove_connection_ok:
  "a \<noteq> b \<Longrightarrow> b \<in> conns s a \<Longrightarrow> a \<in> conns s b \<Longrightarrow>
     remove_connection a b s =
       (Inr (), set_connections b (conns s b - {a}) (set_connections a (conns s a - {b}) s))"
  by (simp add: remove_connection_def returns_def Let_def)

lemma remove_connection_absent:
  "b \<notin> conns s a \<Longrightarrow>
     remove_connection a b s =
       (Inl (ValueError [Lit ''No connection exists with the specified node.'']), s)"
  by (simp add: remove_connection_def raises_def)

lemma Node_init_eq:
  "Node_init x y s =
     (Suc (current_id s),
      s\<lparr>current_id := Suc (current_id s),
        heap := (heap s)(Suc (current_id s) := \<lparr>coordinates = [x, y], connections = {}\<rparr>)\<rparr>)"
  by (simp add: Node_init_def get_unique_id_def Let_def)

lemma Node_init_fields [simp]:
  "fst (Node_init x y s) = Suc (current_id s)"
  "conns (snd (Node_init x y s)) m = (if m = Suc (current_id s) then {} else conns s m)"
  "coords (snd (Node_init x y s)) m = (if m = Suc (current_id s) then [x, y] else coords s m)"
  "current_id (snd (Node_init x y s)) = Suc (current_id s)"
  "cache (snd (Node_init x y s)) = cache s"
  "rng (snd (Node_init x y s)) = rng s"
  "objects (snd (Node_init x y s)) = objects s"
  by (simp_all add: Node_init_eq conns_def coords_def)

lemma random_fields [simp]:
  "conns (snd (random s)) m = conns s m"
  "coords (snd (random s)) m = coords s m"
  "current_id (snd (random s)) = current_id s"
  "cache (snd (random s)) = cache s"
  "rng (snd (random s)) = (\<lambda>i. rng s (Suc i))"
  "objects (snd (random s)) = objects s"
  by (simp_all add: random_def conns_def coords_def)

lemma rpp_shape_error:
  "length start \<noteq> 2 \<or> length end \<noteq> 2 \<Longrightarrow>
     random_perpendicular_point start end ro s =
       (Inl (ValueError [Lit ''Both 'start' and 'end' must be 2-dimensional vectors.'']), s)"
  by (simp add: random_perpendicular_point_def raises_def)

lemma length_2_conv: "length xs = 2 \<longleftrightarrow> (\<exists>a b. xs = [a, b])"
  by (cases xs; cases "tl xs") auto

lemma rpp_returns:
  assumes "length start = 2" and "length end = 2"
  shows "\<exists>x y. random_perpendicular_point start end ro s = (Inr [x, y], snd (random s))"
proof -
  from assms obtain a b c d where "start = [a, b]" and "end = [c, d]"
    by (auto simp: length_2_conv)
  then show ?thesis
    by (simp add: random_perpendicular_point_def np_divide_def uniform_def returns_def Let_def
        split: prod.splits)
qed

lemma sort_pair: "sort [a, b] = (if a \<le> b then [a, b] else [b, a])" for a b :: nat
  by simp

lemma sort_pair_commute: "sort [a, b] = sort [b, a]" for a b :: nat
  by auto

lemma sort_pair_set: "set (sort [a, b]) = {a, b}" for a b :: nat
  by auto

lemma unpack2_pair: "unpack2 [x, y] s = (Inr (x, y), s)"
  by (simp add: unpack2_def returns_def)

lemma create_new_node_try_ok:
  assumes ab: "b \<in> conns s a" and ba: "a \<in> conns s b" and neq: "a \<noteq> b"
    and a: "a \<le> current_id s" and b: "b \<le> current_id s"
    and sa: "length (coords s a) = 2" and sb: "length (coords s b) = 2"
  defines "n \<equiv> Suc (current_id s)"
  shows "\<exists>s'. create_new_node_try a b s = (Inr n, s') \<and>
           current_id s' = n \<and>
           (\<forall>x. conns s' x =
              (if x = n then {a, b}
               else if x = a then insert n (conns s a - {b})
               else if x = b then insert n (conns s b - {a})
               else conns s x)) \<and>
           (\<forall>x. x \<noteq> n \<longrightarrow> coords s' x = coords s x) \<and>
           length (coords s' n) = 2 \<and>
           cache s' = cache s \<and> objects s' = objects s \<and>
           rng s' = (\<lambda>i. rng s (Suc i))"
proof -
  from rpp_returns [OF sa sb] obtain x y where
    rpp: "random_perpendicular_point (coords s a) (coords s b) (Fin 0.3) s
            = (Inr [x, y], snd (random s))"
    by blast
  define s1 where "s1 = snd (random s)"
  define s2 where "s2 = snd (Node_init x y s1)"
  define s3 where "s3 = set_connections a (insert n (conns s2 a)) (set_connections n (insert a (conns s2 n)) s2)"
  define s4 where "s4 = set_connections b (insert n (conns s3 b)) (set_connections n (insert b (conns s3 n)) s3)"
  define s5 where "s5 = set_connections b (conns s4 b - {a}) (set_connections a (conns s4 a - {b}) s4)"
  have na: "n \<noteq> a" and nb: "n \<noteq> b" using a b by (auto simp: n_def)
  have ni: "Node_init x y s1 = (n, s2)"
    by (simp add: s2_def s1_def n_def prod_eq_iff)
  have c2: "conns s2 n = {}" "conns s2 a = conns s a" "conns s2 b = conns s b"
    using na nb by (simp_all add: s2_def s1_def n_def)
  have st3: "add_connection n a s2 = (Inr (), s3)"
    unfolding s3_def using na c2 by (intro add_connection_new) auto
  have c3: "conns s3 n = {a}" "conns s3 a = insert n (conns s a)" "conns s3 b = conns s b"
    using na nb neq c2 by (auto simp: s3_def)
  have st4: "add_connection n b s3 = (Inr (), s4)"
    unfolding s4_def using nb c3 neq by (intro add_connection_new) auto
  have c4: "conns s4 n = {a, b}" "conns s4 a = insert n (conns s a)"
    "conns s4 b = insert n (conns s b)"
    using na nb neq c3 by (auto simp: s4_def)
  have st5: "remove_connection a b s4 = (Inr (), s5)"
    unfolding s5_def using neq c4 ab ba by (intro remove_connection_ok) auto
  have run: "create_new_node_try a b s = (Inr n, s5)"
    by (simp add: create_new_node_try_def and_then_def rpp unpack2_pair s1_def [symmetric] ni
        st3 st4 st5 returns_def)
  have conns5: "conns s5 x =
              (if x = n then {a, b}
               else if x = a then insert n (conns s a - {b})
               else if x = b then insert n (conns s b - {a})
               else conns s x)" for x
    using na nb neq
    by (auto simp: s5_def s4_def s3_def s2_def s1_def n_def)
  have rest: "current_id s5 = n" "cache s5 = cache s" "objects s5 = objects s"
    "rng s5 = (\<lambda>i. rng s (Suc i))" "length (coords s5 n) = 2"
    "\<And>x. x \<noteq> n \<Longrightarrow> coords s5 x = coords s x"
    by (simp_all add: s5_def s4_def s3_def s2_def s1_def n_def)
  show ?thesis
    using run conns5 rest by blast
qed

section \<open>Splitting an edge\<close>

lemma cache_fields_update [simp]:
  "conns (s\<lparr>cache := c\<rparr>) x = conns s x"
  "coords (s\<lparr>cache := c\<rparr>) x = coords s x"
  by (simp_all add: conns_def coords_def)

lemma create_new_node_hit:
  "cache s (sort [a, b]) = Some m \<Longrightarrow> create_new_node a b s = (Inr m, s)"
  by (simp add: create_new_node_def cache_nodes_def returns_def)

lemma create_new_node_disconnected:
  "cache s (sort [a, b]) = None \<Longrightarrow> b \<notin> conns s a \<Longrightarrow>
     create_new_node a b s =
       (Inl (ValueError [Lit ''Nodes must be connected to create a new node between them.'']), s)"
  by (simp add: create_new_node_def cache_nodes_def create_new_node_func_def has_connection_def
      raises_def)

lemma create_new_node_wraps:
  "cache s (sort [a, b]) = None \<Longrightarrow> b \<in> conns s a \<Longrightarrow>
     create_new_node_try a b s = (Inl e, s') \<Longrightarrow>
     create_new_node a b s =
       (Inl (ValueError (Lit ''An error occurred while creating a new node: '' # exn_str e)), s')"
  by (simp add: create_new_node_def cache_nodes_def create_new_node_func_def has_connection_def
      raises_def)

lemma create_new_node_stores:
  "cache s (sort [a, b]) = None \<Longrightarrow> b \<in> conns s a \<Longrightarrow>
     create_new_node_try a b s = (Inr n, s') \<Longrightarrow>
     create_new_node a b s = (Inr n, s'\<lparr>cache := (cache s')(sort [a, b] \<mapsto> n)\<rparr>)"
  by (simp add: create_new_node_def cache_nodes_def create_new_node_func_def has_connection_def
      returns_def)

lemma create_new_node_miss:
  assumes g: "graph_ok s" and a: "allocated s a" and b: "allocated s b"
    and sa: "length (coords s a) = 2" and sb: "length (coords s b) = 2"
    and ab: "b \<in> conns s a" and miss: "cache s (sort [a, b]) = None"
  shows "\<exists>s'. create_new_node a b s = (Inr (Suc (current_id s)), s') \<and> edge_split s a b s'"
proof -
  from g ab have ba: "a \<in> conns s b" and neq: "a \<noteq> b"
    by (auto simp: graph_ok_def symmetric_def irreflexive_def)
  from a b have le: "a \<le> current_id s" "b \<le> current_id s"
    by (simp_all add: allocated_def)
  from create_new_node_try_ok [OF ab ba neq le sa sb] obtain s1 where
    tr: "create_new_node_try a b s = (Inr (Suc (current_id s)), s1)" and
    s1: "current_id s1 = Suc (current_id s)"
      "\<forall>x. conns s1 x =
         (if x = Suc (current_id s) then {a, b}
          else if x = a then insert (Suc (current_id s)) (conns s a - {b})
          else if x = b then insert (Suc (current_id s)) (conns s b - {a})
          else conns s x)"
      "\<forall>x. x \<noteq> Suc (current_id s) \<longrightarrow> coords s1 x = coords s x"
      "length (coords s1 (Suc (current_id s))) = 2"
      "cache s1 = cache s" "objects s1 = objects s"
      "rng s1 = (\<lambda>i. rng s (Suc i))"
    by blast
  let ?s' = "s1\<lparr>cache := (cache s1)(sort [a, b] \<mapsto> Suc (current_id s))\<rparr>"
  have "create_new_node a b s = (Inr (Suc (current_id s)), ?s')"
    by (rule create_new_node_stores [OF miss ab tr])
  moreover have "edge_split s a b ?s'"
    unfolding edge_split_def using s1 by simp
  ultimately show ?thesis by blast
qed

lemma edge_split_graph_ok:
  assumes g: "graph_ok s" and a: "allocated s a" and b: "allocated s b"
    and ab: "b \<in> conns s a" and sp: "edge_split s a b s'"
  shows "graph_ok s'"
proof -
  let ?n = "Suc (current_id s)"
  from g have sym: "\<And>x y. y \<in> conns s x \<Longrightarrow> x \<in> conns s y"
    and irr: "\<And>x. x \<notin> conns s x"
    and cl: "\<And>x y. y \<in> conns s x \<Longrightarrow> allocated s x \<and> allocated s y"
    by (auto simp: graph_ok_def symmetric_def irreflexive_def closed_graph_def)
  from sp have cid: "current_id s' = ?n"
    and cs: "\<And>x. conns s' x =
        (if x = ?n then {a, b}
         else if x = a then insert ?n (conns s a - {b})
         else if x = b then insert ?n (conns s b - {a})
         else conns s x)"
    by (auto simp: edge_split_def)
  have fresh: "\<And>x. ?n \<notin> conns s x" "conns s ?n = {}"
    using cl by (force simp: allocated_def)+
  have na: "a \<noteq> ?n" "b \<noteq> ?n" "a \<noteq> b"
    using a b ab irr by (auto simp: allocated_def)
  have al: "\<And>x. allocated s x \<Longrightarrow> allocated s' x" "allocated s' ?n"
    by (simp_all add: allocated_def cid)
  have "symmetric s'"
    unfolding symmetric_def using sym fresh na by (auto simp: cs split: if_splits)
  moreover have "irreflexive s'"
    unfolding irreflexive_def using irr na by (auto simp: cs)
  moreover have "closed_graph s'"
    unfolding closed_graph_def using cl al a b fresh
    by (auto simp: cs split: if_splits)
  ultimately show ?thesis by (simp add: graph_ok_def)
qed

lemma edge_split_allocated:
  "edge_split s a b s' \<Longrightarrow> allocated s' x \<longleftrightarrow> allocated s x \<or> x = Suc (current_id s)"
  by (auto simp: edge_split_def allocated_def)

lemma edge_split_well_shaped:
  "well_shaped s \<Longrightarrow> edge_split s a b s' \<Longrightarrow> well_shaped s'"
  unfolding well_shaped_def
  by (auto simp: edge_split_allocated) (auto simp: edge_split_def allocated_def)

lemma edge_split_cache_ok:
  assumes c: "cache_ok s" and a: "allocated s a" and b: "allocated s b"
    and miss: "cache s (sort [a, b]) = None" and sp: "edge_split s a b s'"
  shows "cache_ok s'"
proof -
  let ?n = "Suc (current_id s)"
  from c have old: "\<And>k m. cache s k = Some m \<Longrightarrow> allocated s m \<and> (\<forall>x \<in> set k. x < m)"
    and inj: "\<And>k k' m. cache s k = Some m \<Longrightarrow> cache s k' = Some m \<Longrightarrow> k = k'"
    unfolding cache_ok_def by blast+
  from sp have ca: "cache s' = (cache s)(sort [a, b] \<mapsto> ?n)"
    by (simp add: edge_split_def)
  have lt: "a < ?n" "b < ?n" using a b by (auto simp: allocated_def)
  have notn: "\<And>k. cache s k \<noteq> Some ?n"
    using old by (force simp: allocated_def)
  have 1: "allocated s' m \<and> (\<forall>x \<in> set k. x < m)" if "cache s' k = Some m" for k m
  proof (cases "k = sort [a, b]")
    case True
    with that have "m = ?n" by (simp add: ca)
    then show ?thesis
      using lt True sp by (auto simp: edge_split_allocated)
  next
    case False
    with that have "cache s k = Some m" by (simp add: ca)
    then show ?thesis using old sp by (auto simp: edge_split_allocated)
  qed
  have 2: "k = k'" if "cache s' k = Some m" "cache s' k' = Some m" for k k' m
    using that inj notn by (auto simp: ca split: if_splits)
  show ?thesis
    unfolding cache_ok_def using 1 2 by blast
qed

lemma edge_split_extends:
  assumes g: "graph_ok s" and miss: "cache s (sort [a, b]) = None"
    and sp: "edge_split s a b s'"
  shows "extends s s'"
proof -
  let ?n = "Suc (current_id s)"
  from sp have ca: "cache s' = (cache s)(sort [a, b] \<mapsto> ?n)"
    and cs: "\<And>x. conns s' x =
        (if x = ?n then {a, b}
         else if x = a then insert ?n (conns s a - {b})
         else if x = b then insert ?n (conns s b - {a})
         else conns s x)"
    by (auto simp: edge_split_def)
  from g have fresh: "conns s ?n = {}"
    by (force simp: graph_ok_def closed_graph_def allocated_def)
  have mono: "cache s' k = Some v" if "cache s k = Some v" for k v
    using that miss by (auto simp: ca)
  have "linked s' x y" if l: "linked s x y" for x y
  proof (cases "cache s (sort [x, y]) = None")
    case False
    then show ?thesis using mono by (auto simp: linked_def)
  next
    case True
    with l have xy: "y \<in> conns s x" by (simp add: linked_def)
    with fresh have xn: "x \<noteq> ?n" by auto
    show ?thesis
    proof (cases "(x = a \<and> y = b) \<or> (x = b \<and> y = a)")
      case True
      then have "sort [x, y] = sort [a, b]" by auto
      then show ?thesis by (simp add: linked_def ca)
    next
      case False
      with xy xn have "y \<in> conns s' x" by (auto simp: cs)
      then show ?thesis by (simp add: linked_def)
    qed
  qed
  with mono sp show ?thesis
    by (simp add: extends_def edge_split_def)
qed

lemma extends_refl: "extends s s"
  by (simp add: extends_def)

lemma extends_trans: "extends s s' \<Longrightarrow> extends s' s'' \<Longrightarrow> extends s s''"
  unfolding extends_def by (meson le_trans)

lemma extends_allocated: "extends s s' \<Longrightarrow> allocated s x \<Longrightarrow> allocated s' x"
  by (auto simp: extends_def allocated_def)

lemma extends_valid_triangle: "extends s s' \<Longrightarrow> valid_triangle s t \<Longrightarrow> valid_triangle s' t"
  unfolding valid_triangle_def using extends_allocated by (auto simp: extends_def)

text \<open>The midpoint of a linked edge exists or is made: the call cannot fail.\<close>

lemma create_new_node_linked:
  assumes inv: "mesh_inv s" and a: "allocated s a" and b: "allocated s b"
    and l: "linked s a b"
  shows "\<exists>m s'. create_new_node a b s = (Inr m, s') \<and> mesh_inv s' \<and> extends s s' \<and>
           cache s' (sort [a, b]) = Some m \<and> objects s' = objects s"
proof (cases "cache s (sort [a, b])")
  case (Some m)
  then show ?thesis
    using inv create_new_node_hit [OF Some] by (auto simp: extends_refl)
next
  case None
  with l have ab: "b \<in> conns s a" by (simp add: linked_def)
  from inv have g: "graph_ok s" and w: "well_shaped s" and c: "cache_ok s"
    by (simp_all add: mesh_inv_def)
  from w a b have sh: "length (coords s a) = 2" "length (coords s b) = 2"
    by (simp_all add: well_shaped_def)
  from create_new_node_miss [OF g a b sh ab None] obtain s' where
    run: "create_new_node a b s = (Inr (Suc (current_id s)), s')" and sp: "edge_split s a b s'"
    by blast
  have "mesh_inv s'"
    unfolding mesh_inv_def
    using edge_split_graph_ok [OF g a b ab sp] edge_split_well_shaped [OF w sp]
      edge_split_cache_ok [OF c a b None sp] by simp
  moreover have "cache s' (sort [a, b]) = Some (Suc (current_id s))" "objects s' = objects s"
    using sp by (simp_all add: edge_split_def)
  ultimately show ?thesis
    using run edge_split_extends [OF g None sp] by blast
qed

section \<open>Triangles and their subdivision\<close>

lemma edges_added_refl: "edges_added s s"
  by (simp add: edges_added_def)

lemma edges_added_trans: "edges_added s s' \<Longrightarrow> edges_added s' s'' \<Longrightarrow> edges_added s s''"
  unfolding edges_added_def by (metis subset_trans)

lemma edges_added_allocated: "edges_added s s' \<Longrightarrow> allocated s' x = allocated s x"
  by (simp add: edges_added_def allocated_def)

lemma edges_added_extends: "edges_added s s' \<Longrightarrow> extends s s'"
  unfolding edges_added_def extends_def linked_def by auto

lemma edges_added_mesh_inv:
  "mesh_inv s \<Longrightarrow> edges_added s s' \<Longrightarrow> graph_ok s' \<Longrightarrow> mesh_inv s'"
  unfolding mesh_inv_def well_shaped_def cache_ok_def
  by (simp add: edges_added_allocated) (simp add: edges_added_def)

text \<open>Connecting two distinct nodes of a well-formed graph.\<close>

lemma add_connection_ok:
  assumes g: "graph_ok s" and a: "allocated s a" and b: "allocated s b" and neq: "a \<noteq> b"
  shows "\<exists>s'. add_connection a b s = (Inr (), s') \<and> graph_ok s' \<and> edges_added s s' \<and>
           b \<in> conns s' a \<and> a \<in> conns s' b"
proof (cases "b \<in> conns s a")
  case True
  with g have "a \<in> conns s b" by (auto simp: graph_ok_def symmetric_def)
  with True g add_connection_old [OF neq True] show ?thesis
    by (auto simp: edges_added_refl)
next
  case False
  let ?s' = "set_connections b (insert a (conns s b)) (set_connections a (insert b (conns s a)) s)"
  have run: "add_connection a b s = (Inr (), ?s')"
    by (rule add_connection_new [OF neq False])
  have cs: "conns ?s' x =
      (if x = b then insert a (conns s b) else if x = a then insert b (conns s a) else conns s x)"
    for x
    by simp
  from g have sym: "\<And>x y. y \<in> conns s x \<Longrightarrow> x \<in> conns s y"
    and irr: "\<And>x. x \<notin> conns s x"
    and cl: "\<And>x y. y \<in> conns s x \<Longrightarrow> allocated s x \<and> allocated s y"
    by (auto simp: graph_ok_def symmetric_def irreflexive_def closed_graph_def)
  have "symmetric ?s'"
    unfolding symmetric_def using sym neq by (auto simp: cs split: if_splits)
  moreover have "irreflexive ?s'"
    unfolding irreflexive_def using irr neq by (auto simp: cs)
  moreover have "closed_graph ?s'"
    unfolding closed_graph_def using cl a b by (auto simp: cs split: if_splits)
  ultimately have "graph_ok ?s'" by (simp add: graph_ok_def)
  moreover have "edges_added s ?s'"
    unfolding edges_added_def by (auto simp: cs)
  moreover have "b \<in> conns ?s' a" "a \<in> conns ?s' b"
    using neq by (simp_all add: cs)
  ultimately show ?thesis using run by blast
qed

lemma objects_update_fields [simp]:
  "conns (s\<lparr>objects := k\<rparr>) x = conns s x"
  "coords (s\<lparr>objects := k\<rparr>) x = coords s x"
  "allocated (s\<lparr>objects := k\<rparr>) x = allocated s x"
  by (simp_all add: conns_def coords_def allocated_def)

lemma objects_update_graph_ok [simp]: "graph_ok (s\<lparr>objects := k\<rparr>) = graph_ok s"
  by (simp add: graph_ok_def symmetric_def irreflexive_def closed_graph_def)

lemma objects_update_mesh_inv [simp]: "mesh_inv (s\<lparr>objects := k\<rparr>) = mesh_inv s"
  by (simp add: mesh_inv_def well_shaped_def cache_ok_def)

lemma objects_update_extends: "objects s \<le> k \<Longrightarrow> extends s (s\<lparr>objects := k\<rparr>)"
  by (simp add: extends_def linked_def)

lemma Triangle_init_ok:
  assumes inv: "mesh_inv s" and a: "allocated s a" and b: "allocated s b" and c: "allocated s c"
    and ab: "a \<noteq> b" and bc: "b \<noteq> c" and ac: "a \<noteq> c"
  shows "\<exists>s'. Triangle_init a b c s =
             (Inr \<lparr>ident = objects s, node_a = a, node_b = b, node_c = c\<rparr>, s') \<and>
           mesh_inv s' \<and> extends s s' \<and> objects s' = Suc (objects s) \<and>
           cache s' = cache s \<and> current_id s' = current_id s \<and>
           b \<in> conns s' a \<and> a \<in> conns s' b \<and> c \<in> conns s' a \<and> a \<in> conns s' c \<and>
           c \<in> conns s' b \<and> b \<in> conns s' c"
proof -
  let ?s0 = "s\<lparr>objects := Suc (objects s)\<rparr>"
  let ?t = "\<lparr>ident = objects s, node_a = a, node_b = b, node_c = c\<rparr>"
  from inv have g0: "graph_ok ?s0" by (simp add: mesh_inv_def)
  have al0: "allocated ?s0 a" "allocated ?s0 b" "allocated ?s0 c" using a b c by simp_all
  from add_connection_ok [OF g0 al0(1) al0(2) ab] obtain s1 where
    r1: "add_connection a b ?s0 = (Inr (), s1)" and g1: "graph_ok s1"
    and e1: "edges_added ?s0 s1" and m1: "b \<in> conns s1 a" "a \<in> conns s1 b"
    by blast
  have al1: "allocated s1 a" "allocated s1 b" "allocated s1 c"
    using al0 e1 by (simp_all add: edges_added_allocated)
  from add_connection_ok [OF g1 al1(1) al1(3) ac] obtain s2 where
    r2: "add_connection a c s1 = (Inr (), s2)" and g2: "graph_ok s2"
    and e2: "edges_added s1 s2" and m2: "c \<in> conns s2 a" "a \<in> conns s2 c"
    by blast
  have al2: "allocated s2 a" "allocated s2 b" "allocated s2 c"
    using al1 e2 by (simp_all add: edges_added_allocated)
  from add_connection_ok [OF g2 al2(2) al2(3) bc] obtain s3 where
    r3: "add_connection b c s2 = (Inr (), s3)" and g3: "graph_ok s3"
    and e3: "edges_added s2 s3" and m3: "c \<in> conns s3 b" "b \<in> conns s3 c"
    by blast
  have e03: "edges_added ?s0 s3"
    using e1 e2 e3 by (blast intro: edges_added_trans)
  have run: "Triangle_init a b c s = (Inr ?t, s3)"
    by (simp add: Triangle_init_def create_edges_def and_then_def r1 r2 r3 returns_def Let_def)
  have "mesh_inv s3"
    using edges_added_mesh_inv [OF _ e03 g3] inv by simp
  moreover have "extends s s3"
    using extends_trans [OF objects_update_extends edges_added_extends [OF e03]] by simp
  moreover have "objects s3 = Suc (objects s)" "cache s3 = cache s" "current_id s3 = current_id s"
    using e03 by (simp_all add: edges_added_def)
  moreover have "b \<in> conns s3 a" "a \<in> conns s3 b" "c \<in> conns s3 a" "a \<in> conns s3 c"
    using m1 m2 e2 e3 unfolding edges_added_def by blast+
  ultimately show ?thesis using run m3 by blast
qed

lemma sort_pair_eq_iff: "sort [a, b] = sort [c, d] \<longleftrightarrow> {a, b} = {c, d}" for a b c d :: nat
  by (auto simp: doubleton_eq_iff)

lemma cache_ok_distinct:
  "cache_ok s \<Longrightarrow> cache s (sort [a, b]) = Some m \<Longrightarrow> cache s (sort [c, d]) = Some m' \<Longrightarrow>
     {a, b} \<noteq> {c, d} \<Longrightarrow> m \<noteq> m'"
  unfolding cache_ok_def using sort_pair_eq_iff by blast

lemma cache_ok_younger:
  "cache_ok s \<Longrightarrow> cache s (sort [a, b]) = Some m \<Longrightarrow> allocated s m \<and> a < m \<and> b < m"
  unfolding cache_ok_def using sort_pair_set [of a b] by (metis insertCI)

lemma extends_cache: "extends s s' \<Longrightarrow> cache s k = Some v \<Longrightarrow> cache s' k = Some v"
  by (simp add: extends_def)

lemma extends_objects: "extends s s' \<Longrightarrow> objects s \<le> objects s'"
  by (simp add: extends_def)

lemma valid_triangle_edges:
  "allocated s a \<Longrightarrow> allocated s b \<Longrightarrow> allocated s c \<Longrightarrow> a \<noteq> b \<Longrightarrow> b \<noteq> c \<Longrightarrow> a \<noteq> c \<Longrightarrow>
   b \<in> conns s a \<Longrightarrow> c \<in> conns s b \<Longrightarrow> c \<in> conns s a \<Longrightarrow>
     valid_triangle s \<lparr>ident = i, node_a = a, node_b = b, node_c = c\<rparr>"
  by (simp add: valid_triangle_def linked_def)

lemma subdivide_ok:
  assumes inv: "mesh_inv s" and vt: "valid_triangle s t"
  shows "\<exists>D E F s1 s2 s3 s'.
           create_new_node (node_a t) (node_b t) s = (Inr D, s1) \<and>
           create_new_node (node_b t) (node_c t) s1 = (Inr E, s2) \<and>
           create_new_node (node_a t) (node_c t) s2 = (Inr F, s3) \<and>
           subdivide t s =
             (Inr [\<lparr>ident = objects s, node_a = D, node_b = node_b t, node_c = E\<rparr>,
                   \<lparr>ident = objects s + 1, node_a = node_a t, node_b = D, node_c = F\<rparr>,
                   \<lparr>ident = objects s + 2, node_a = F, node_b = E, node_c = node_c t\<rparr>,
                   \<lparr>ident = objects s + 3, node_a = D, node_b = E, node_c = F\<rparr>], s') \<and>
           mesh_inv s' \<and> extends s s' \<and> objects s' = objects s + 4 \<and>
           valid_triangle s' \<lparr>ident = objects s, node_a = D, node_b = node_b t, node_c = E\<rparr> \<and>
           valid_triangle s' \<lparr>ident = objects s + 1, node_a = node_a t, node_b = D, node_c = F\<rparr> \<and>
           valid_triangle s' \<lparr>ident = objects s + 2, node_a = F, node_b = E, node_c = node_c t\<rparr> \<and>
           valid_triangle s' \<lparr>ident = objects s + 3, node_a = D, node_b = E, node_c = F\<rparr> \<and>
           E \<in> conns s' D \<and> D \<in> conns s' E \<and> F \<in> conns s' D \<and> D \<in> conns s' F \<and>
           F \<in> conns s' E \<and> E \<in> conns s' F"
proof -
  let ?A = "node_a t" and ?B = "node_b t" and ?C = "node_c t"
  from vt have al: "allocated s ?A" "allocated s ?B" "allocated s ?C"
    and ne: "?A \<noteq> ?B" "?B \<noteq> ?C" "?A \<noteq> ?C"
    and li: "linked s ?A ?B" "linked s ?B ?C" "linked s ?A ?C"
    by (simp_all add: valid_triangle_def)
  from create_new_node_linked [OF inv al(1) al(2) li(1)] obtain D s1 where
    r1: "create_new_node ?A ?B s = (Inr D, s1)" and i1: "mesh_inv s1" and e1: "extends s s1"
    and c1: "cache s1 (sort [?A, ?B]) = Some D" and o1: "objects s1 = objects s"
    by blast
  have al1: "allocated s1 ?A" "allocated s1 ?B" "allocated s1 ?C"
    using al e1 by (simp_all add: extends_allocated)
  have li1: "linked s1 ?B ?C" "linked s1 ?A ?C" using li e1 by (simp_all add: extends_def)
  from create_new_node_linked [OF i1 al1(2) al1(3) li1(1)] obtain E s2 where
    r2: "create_new_node ?B ?C s1 = (Inr E, s2)" and i2: "mesh_inv s2" and e2: "extends s1 s2"
    and c2: "cache s2 (sort [?B, ?C]) = Some E" and o2: "objects s2 = objects s1"
    by blast
  have al2: "allocated s2 ?A" "allocated s2 ?B" "allocated s2 ?C"
    using al1 e2 by (simp_all add: extends_allocated)
  have li2: "linked s2 ?A ?C" using li1 e2 by (simp add: extends_def)
  from create_new_node_linked [OF i2 al2(1) al2(3) li2] obtain F s3 where
    r3: "create_new_node ?A ?C s2 = (Inr F, s3)" and i3: "mesh_inv s3" and e3: "extends s2 s3"
    and c3: "cache s3 (sort [?A, ?C]) = Some F" and o3: "objects s3 = objects s2"
    by blast
  have al3: "allocated s3 ?A" "allocated s3 ?B" "allocated s3 ?C"
    using al2 e3 by (simp_all add: extends_allocated)
  have cD: "cache s3 (sort [?A, ?B]) = Some D"
    using c1 e2 e3 by (simp add: extends_cache)
  have cE: "cache s3 (sort [?B, ?C]) = Some E"
    using c2 e3 by (simp add: extends_cache)
  from i3 have ck: "cache_ok s3" by (simp add: mesh_inv_def)
  from cache_ok_younger [OF ck cD] have D: "allocated s3 D" "?A < D" "?B < D" by simp_all
  from cache_ok_younger [OF ck cE] have E: "allocated s3 E" "?B < E" "?C < E" by simp_all
  from cache_ok_younger [OF ck c3] have F: "allocated s3 F" "?A < F" "?C < F" by simp_all
  have DE: "D \<noteq> E" using cache_ok_distinct [OF ck cD cE] ne by (auto simp: doubleton_eq_iff)
  have DF: "D \<noteq> F" using cache_ok_distinct [OF ck cD c3] ne by (auto simp: doubleton_eq_iff)
  have EF: "E \<noteq> F" using cache_ok_distinct [OF ck cE c3] ne by (auto simp: doubleton_eq_iff)
  have n1: "D \<noteq> ?B" "?B \<noteq> E" using D E by simp_all
  from Triangle_init_ok [OF i3 D(1) al3(2) E(1) n1 DE] obtain s4 where
    r4: "Triangle_init D ?B E s3 =
           (Inr \<lparr>ident = objects s3, node_a = D, node_b = ?B, node_c = E\<rparr>, s4)"
    and i4: "mesh_inv s4" and e4: "extends s3 s4" and o4: "objects s4 = Suc (objects s3)"
    and k4: "current_id s4 = current_id s3"
    and m4: "?B \<in> conns s4 D" "E \<in> conns s4 ?B" "E \<in> conns s4 D"
    by blast
  have al4: "allocated s4 ?A" "allocated s4 ?B" "allocated s4 ?C" "allocated s4 D"
    "allocated s4 E" "allocated s4 F"
    using al3 D E F e4 by (simp_all add: extends_allocated)
  have v1: "valid_triangle s4 \<lparr>ident = objects s3, node_a = D, node_b = ?B, node_c = E\<rparr>"
    using al4 n1 DE m4 by (intro valid_triangle_edges) auto
  have n2: "?A \<noteq> D" "?A \<noteq> F" using D F by simp_all
  from Triangle_init_ok [OF i4 al4(1) al4(4) al4(6) n2(1) DF n2(2)] obtain s5 where
    r5: "Triangle_init ?A D F s4 =
           (Inr \<lparr>ident = objects s4, node_a = ?A, node_b = D, node_c = F\<rparr>, s5)"
    and i5: "mesh_inv s5" and e5: "extends s4 s5" and o5: "objects s5 = Suc (objects s4)"
    and m5: "D \<in> conns s5 ?A" "F \<in> conns s5 D" "F \<in> conns s5 ?A"
    by blast
  have al5: "allocated s5 ?A" "allocated s5 ?B" "allocated s5 ?C" "allocated s5 D"
    "allocated s5 E" "allocated s5 F"
    using al4 e5 by (simp_all add: extends_allocated)
  have v2: "valid_triangle s5 \<lparr>ident = objects s4, node_a = ?A, node_b = D, node_c = F\<rparr>"
    using al5 n2 DF m5 by (intro valid_triangle_edges) auto
  have n3: "F \<noteq> E" "E \<noteq> ?C" "F \<noteq> ?C" using EF E F by auto
  from Triangle_init_ok [OF i5 al5(6) al5(5) al5(3) n3] obtain s6 where
    r6: "Triangle_init F E ?C s5 =
           (Inr \<lparr>ident = objects s5, node_a = F, node_b = E, node_c = ?C\<rparr>, s6)"
    and i6: "mesh_inv s6" and e6: "extends s5 s6" and o6: "objects s6 = Suc (objects s5)"
    and m6: "E \<in> conns s6 F" "?C \<in> conns s6 E" "?C \<in> conns s6 F"
    by blast
  have al6: "allocated s6 ?A" "allocated s6 ?B" "allocated s6 ?C" "allocated s6 D"
    "allocated s6 E" "allocated s6 F"
    using al5 e6 by (simp_all add: extends_allocated)
  have v3: "valid_triangle s6 \<lparr>ident = objects s5, node_a = F, node_b = E, node_c = ?C\<rparr>"
    using al6 n3 m6 by (intro valid_triangle_edges) auto
  from Triangle_init_ok [OF i6 al6(4) al6(5) al6(6) DE EF DF] obtain s7 where
    r7: "Triangle_init D E F s6 =
           (Inr \<lparr>ident = objects s6, node_a = D, node_b = E, node_c = F\<rparr>, s7)"
    and i7: "mesh_inv s7" and e7: "extends s6 s7" and o7: "objects s7 = Suc (objects s6)"
    and m7: "E \<in> conns s7 D" "D \<in> conns s7 E" "F \<in> conns s7 D" "D \<in> conns s7 F"
      "F \<in> conns s7 E" "E \<in> conns s7 F"
    by blast
  have al7: "allocated s7 D" "allocated s7 E" "allocated s7 F"
    using al6 e7 by (simp_all add: extends_allocated)
  have v4: "valid_triangle s7 \<lparr>ident = objects s6, node_a = D, node_b = E, node_c = F\<rparr>"
    using al7 DE EF DF m7 by (intro valid_triangle_edges) auto
  have ob: "objects s3 = objects s" "objects s4 = objects s + 1" "objects s5 = objects s + 2"
    "objects s6 = objects s + 3" "objects s7 = objects s + 4"
    using o1 o2 o3 o4 o5 o6 o7 by simp_all
  have run: "subdivide t s =
             (Inr [\<lparr>ident = objects s, node_a = D, node_b = ?B, node_c = E\<rparr>,
                   \<lparr>ident = objects s + 1, node_a = ?A, node_b = D, node_c = F\<rparr>,
                   \<lparr>ident = objects s + 2, node_a = F, node_b = E, node_c = ?C\<rparr>,
                   \<lparr>ident = objects s + 3, node_a = D, node_b = E, node_c = F\<rparr>], s7)"
    unfolding subdivide_def
    by (simp add: and_then_def r1 r2 r3 r4 r5 r6 r7 returns_def ob)
  have ext: "extends s s7"
    using e1 e2 e3 e4 e5 e6 e7 by (blast intro: extends_trans)
  have e67: "extends s6 s7" by (rule e7)
  have e57: "extends s5 s7" by (rule extends_trans [OF e6 e67])
  have e47: "extends s4 s7" by (rule extends_trans [OF e5 e57])
  have v1': "valid_triangle s7 \<lparr>ident = objects s, node_a = D, node_b = ?B, node_c = E\<rparr>"
    using extends_valid_triangle [OF e47 v1] by (simp only: ob)
  have v2': "valid_triangle s7 \<lparr>ident = objects s + 1, node_a = ?A, node_b = D, node_c = F\<rparr>"
    using extends_valid_triangle [OF e57 v2] by (simp only: ob)
  have v3': "valid_triangle s7 \<lparr>ident = objects s + 2, node_a = F, node_b = E, node_c = ?C\<rparr>"
    using extends_valid_triangle [OF e67 v3] by (simp only: ob)
  have v4': "valid_triangle s7 \<lparr>ident = objects s + 3, node_a = D, node_b = E, node_c = F\<rparr>"
    using v4 by (simp only: ob)
  show ?thesis
    using r1 r2 r3 run i7 ext ob(5) v1' v2' v3' v4' m7 by blast
qed

section \<open>The expansion loop\<close>

lemma queue_ok_step:
  assumes q: "queue_ok s (t # rest)"
  shows "\<exists>cs s1. subdivide t s = (Inr cs, s1) \<and> length cs = 4 \<and> queue_ok s1 (rest @ cs) \<and>
           objects s \<le> objects s1 \<and> (\<forall>c \<in> set cs. objects s \<le> ident c)"
proof -
  from q have inv: "mesh_inv s" and vt: "valid_triangle s t"
    and rest: "\<forall>r \<in> set rest. valid_triangle s r \<and> ident r < objects s"
    and dist: "distinct (map ident rest)"
    by (simp_all add: queue_ok_def)
  from subdivide_ok [OF inv vt] obtain D E F s1 where
    run: "subdivide t s =
             (Inr [\<lparr>ident = objects s, node_a = D, node_b = node_b t, node_c = E\<rparr>,
                   \<lparr>ident = objects s + 1, node_a = node_a t, node_b = D, node_c = F\<rparr>,
                   \<lparr>ident = objects s + 2, node_a = F, node_b = E, node_c = node_c t\<rparr>,
                   \<lparr>ident = objects s + 3, node_a = D, node_b = E, node_c = F\<rparr>], s1)"
    and i1: "mesh_inv s1" and e1: "extends s s1" and o1: "objects s1 = objects s + 4"
    and v: "valid_triangle s1 \<lparr>ident = objects s, node_a = D, node_b = node_b t, node_c = E\<rparr>"
      "valid_triangle s1 \<lparr>ident = objects s + 1, node_a = node_a t, node_b = D, node_c = F\<rparr>"
      "valid_triangle s1 \<lparr>ident = objects s + 2, node_a = F, node_b = E, node_c = node_c t\<rparr>"
      "valid_triangle s1 \<lparr>ident = objects s + 3, node_a = D, node_b = E, node_c = F\<rparr>"
    by blast
  let ?cs = "[\<lparr>ident = objects s, node_a = D, node_b = node_b t, node_c = E\<rparr>,
                   \<lparr>ident = objects s + 1, node_a = node_a t, node_b = D, node_c = F\<rparr>,
                   \<lparr>ident = objects s + 2, node_a = F, node_b = E, node_c = node_c t\<rparr>,
                   \<lparr>ident = objects s + 3, node_a = D, node_b = E, node_c = F\<rparr>]"
  have rest1: "\<forall>r \<in> set rest. valid_triangle s1 r \<and> ident r < objects s1"
    using rest o1 extends_valid_triangle [OF e1] by auto
  have cs1: "\<forall>c \<in> set ?cs. valid_triangle s1 c \<and> ident c < objects s1"
    using v o1 by simp
  have d: "distinct (map ident (rest @ ?cs))"
    using dist rest by auto
  have "queue_ok s1 (rest @ ?cs)"
    unfolding queue_ok_def using i1 rest1 cs1 d by (simp only: set_append) blast
  moreover have "\<forall>c \<in> set ?cs. objects s \<le> ident c" by simp
  ultimately show ?thesis using run o1 by (intro exI [of _ ?cs] exI [of _ s1]) simp
qed

lemma expand_ok:
  assumes "queue_ok s ts" and "ts \<noteq> []"
  shows "\<exists>s' ts'. expand n s \<lparr>items = map Obj ts\<rparr> = (Inr (), s', \<lparr>items = map Obj ts'\<rparr>) \<and>
           length ts' = length ts + 3 * n \<and> queue_ok s' ts' \<and> objects s \<le> objects s' \<and>
           (\<forall>t \<in> set ts'. t \<in> set ts \<or> objects s \<le> ident t) \<and>
           length (subdivided n s \<lparr>items = map Obj ts\<rparr>) = n \<and>
           set (subdivided n s \<lparr>items = map Obj ts\<rparr>) \<inter> set ts' = {}"
  using assms
proof (induction n arbitrary: s ts)
  case 0
  then show ?case by (intro exI [of _ s] exI [of _ ts]) simp
next
  case (Suc n)
  from Suc.prems obtain t rest where ts: "ts = t # rest" by (cases ts) auto
  from queue_ok_step [OF Suc.prems(1) [unfolded ts]] obtain cs s1 where
    sub: "subdivide t s = (Inr cs, s1)" and len: "length cs = 4"
    and q1: "queue_ok s1 (rest @ cs)" and o1: "objects s \<le> objects s1"
    and young: "\<forall>c \<in> set cs. objects s \<le> ident c"
    by blast
  from len have ne: "rest @ cs \<noteq> []" by auto
  let ?q1 = "\<lparr>items = map Obj (rest @ cs)\<rparr> :: triangle FIFO"
  from Suc.IH [OF q1 ne] obtain s' ts' where
    run: "expand n s1 ?q1 = (Inr (), s', \<lparr>items = map Obj ts'\<rparr>)"
    and l: "length ts' = length (rest @ cs) + 3 * n" and q': "queue_ok s' ts'"
    and o': "objects s1 \<le> objects s'"
    and src: "\<forall>t \<in> set ts'. t \<in> set (rest @ cs) \<or> objects s1 \<le> ident t"
    and ls: "length (subdivided n s1 ?q1) = n"
    and dj: "set (subdivided n s1 ?q1) \<inter> set ts' = {}"
    by blast
  have step: "expand (Suc n) s \<lparr>items = map Obj ts\<rparr> = expand n s1 ?q1"
    by (simp add: ts dequeue_Cons sub enqueue_many)
  have step': "subdivided (Suc n) s \<lparr>items = map Obj ts\<rparr> = t # subdivided n s1 ?q1"
    by (simp add: ts dequeue_Cons sub enqueue_many)
  from Suc.prems(1) have told: "ident t < objects s" and tnew: "ident t \<notin> ident ` set rest"
    by (auto simp: queue_ok_def ts)
  have tout: "t \<notin> set ts'"
  proof
    assume "t \<in> set ts'"
    with src have "t \<in> set rest \<or> t \<in> set cs \<or> objects s1 \<le> ident t" by auto
    then show False using tnew young told o1 by auto
  qed
  have src': "\<forall>u \<in> set ts'. u \<in> set ts \<or> objects s \<le> ident u"
    using src young o1 by (auto simp: ts)
  have 1: "expand (Suc n) s \<lparr>items = map Obj ts\<rparr> = (Inr (), s', \<lparr>items = map Obj ts'\<rparr>)"
    by (simp only: step run)
  have 2: "length ts' = length ts + 3 * Suc n"
    using l len by (simp add: ts)
  have 3: "objects s \<le> objects s'" using o1 o' by simp
  have 4: "length (subdivided (Suc n) s \<lparr>items = map Obj ts\<rparr>) = Suc n"
    by (simp only: step' ls length_Cons)
  have 5: "set (subdivided (Suc n) s \<lparr>items = map Obj ts\<rparr>) \<inter> set ts' = {}"
    using dj tout by (simp only: step') simp
  show ?case
    using 1 2 q' 3 src' 4 5 by blast
qed

section \<open>Reachable states\<close>

lemma initial_state_fields [simp]:
  "conns (initial_state r) x = {}"
  "coords (initial_state r) x = []"
  "current_id (initial_state r) = 0"
  "cache (initial_state r) = Map.empty"
  "rng (initial_state r) = r"
  "objects (initial_state r) = 0"
  by (simp_all add: initial_state_def conns_def coords_def)

lemma graph_ok_initial: "graph_ok (initial_state r)"
  by (simp add: graph_ok_def symmetric_def irreflexive_def closed_graph_def)

lemma mesh_inv_initial: "mesh_inv (initial_state r)"
  by (auto simp: mesh_inv_def graph_ok_initial well_shaped_def cache_ok_def allocated_def)

lemma allocated_Node_init:
  "allocated (snd (Node_init x y s)) n \<longleftrightarrow> allocated s n \<or> n = Suc (current_id s)"
  by (auto simp: allocated_def)

lemma graph_ok_Node_init:
  assumes g: "graph_ok s"
  shows "graph_ok (snd (Node_init x y s))"
proof -
  let ?s' = "snd (Node_init x y s)"
  from g have sym: "\<And>x y. y \<in> conns s x \<Longrightarrow> x \<in> conns s y"
    and irr: "\<And>x. x \<notin> conns s x"
    and cl: "\<And>x y. y \<in> conns s x \<Longrightarrow> allocated s x \<and> allocated s y"
    by (auto simp: graph_ok_def symmetric_def irreflexive_def closed_graph_def)
  have fresh: "\<And>x. Suc (current_id s) \<notin> conns s x"
    using cl by (force simp: allocated_def)
  have "symmetric ?s'"
    unfolding symmetric_def using sym fresh by (auto split: if_splits)
  moreover have "irreflexive ?s'"
    unfolding irreflexive_def using irr by auto
  moreover have "closed_graph ?s'"
    unfolding closed_graph_def using cl by (auto simp: allocated_Node_init split: if_splits)
  ultimately show ?thesis by (simp add: graph_ok_def)
qed

lemma well_shaped_Node_init: "well_shaped s \<Longrightarrow> well_shaped (snd (Node_init x y s))"
  unfolding well_shaped_def by (auto simp: allocated_Node_init)

lemma cache_ok_Node_init: "cache_ok s \<Longrightarrow> cache_ok (snd (Node_init x y s))"
  unfolding cache_ok_def by (simp add: allocated_Node_init)

lemma mesh_inv_Node_init: "mesh_inv s \<Longrightarrow> mesh_inv (snd (Node_init x y s))"
  unfolding mesh_inv_def
  by (simp add: graph_ok_Node_init well_shaped_Node_init cache_ok_Node_init)

lemma graph_ok_add_connection:
  assumes "graph_ok s" and "allocated s a" and "allocated s b"
  shows "graph_ok (snd (add_connection a b s)) \<and>
         current_id (snd (add_connection a b s)) = current_id s"
proof (cases "a = b")
  case True
  with assms show ?thesis by (simp add: add_connection_self)
next
  case False
  from add_connection_ok [OF assms False] show ?thesis
    by (auto simp: edges_added_def)
qed

lemma graph_ok_remove_connection:
  assumes g: "graph_ok s"
  shows "graph_ok (snd (remove_connection a b s))"
proof (cases "b \<in> conns s a")
  case False
  with g show ?thesis by (simp add: remove_connection_absent)
next
  case True
  from g have sym: "\<And>x y. y \<in> conns s x \<Longrightarrow> x \<in> conns s y"
    and irr: "\<And>x. x \<notin> conns s x"
    and cl: "\<And>x y. y \<in> conns s x \<Longrightarrow> allocated s x \<and> allocated s y"
    by (auto simp: graph_ok_def symmetric_def irreflexive_def closed_graph_def)
  from True have neq: "a \<noteq> b" and ba: "a \<in> conns s b" using irr sym by auto
  let ?s' = "set_connections b (conns s b - {a}) (set_connections a (conns s a - {b}) s)"
  have cs: "conns ?s' x =
      (if x = b then conns s b - {a} else if x = a then conns s a - {b} else conns s x)" for x
    by simp
  have "symmetric ?s'"
    unfolding symmetric_def using sym by (auto simp: cs split: if_splits)
  moreover have "irreflexive ?s'"
    unfolding irreflexive_def using irr by (auto simp: cs)
  moreover have "closed_graph ?s'"
    unfolding closed_graph_def using cl by (auto simp: cs split: if_splits)
  ultimately show ?thesis
    by (simp add: remove_connection_ok [OF neq True ba] graph_ok_def)
qed

lemma create_new_node_try_shape_error:
  "length (coords s a) \<noteq> 2 \<or> length (coords s b) \<noteq> 2 \<Longrightarrow>
     create_new_node_try a b s =
       (Inl (ValueError [Lit ''Both 'start' and 'end' must be 2-dimensional vectors.'']), s)"
  by (simp add: create_new_node_try_def and_then_def rpp_shape_error)

lemma graph_ok_create_new_node:
  assumes g: "graph_ok s" and a: "allocated s a" and b: "allocated s b"
  shows "graph_ok (snd (create_new_node a b s))"
proof (cases "cache s (sort [a, b])")
  case (Some m)
  with g show ?thesis by (simp add: create_new_node_hit)
next
  case None
  show ?thesis
  proof (cases "b \<in> conns s a")
    case False
    with g None show ?thesis by (simp add: create_new_node_disconnected)
  next
    case True
    show ?thesis
    proof (cases "length (coords s a) = 2 \<and> length (coords s b) = 2")
      case False
      then have "create_new_node_try a b s =
        (Inl (ValueError [Lit ''Both 'start' and 'end' must be 2-dimensional vectors.'']), s)"
        by (intro create_new_node_try_shape_error) auto
      from create_new_node_wraps [OF None True this] g show ?thesis by simp
    next
      case sh: True
      from create_new_node_miss [OF g a b _ _ True None] sh obtain s' where
        "create_new_node a b s = (Inr (Suc (current_id s)), s')" "edge_split s a b s'"
        by blast
      with edge_split_graph_ok [OF g a b True] show ?thesis by simp
    qed
  qed
qed

lemma and_then_snd_cases:
  "snd (and_then m f s) = (case m s of (Inl e, s') \<Rightarrow> s' | (Inr x, s') \<Rightarrow> snd (f x s'))"
  by (simp add: and_then_def split: prod.splits sum.splits)

lemma graph_ok_Triangle_init:
  assumes g: "graph_ok s" and a: "allocated s a" and b: "allocated s b" and c: "allocated s c"
  shows "graph_ok (snd (Triangle_init a b c s))"
proof -
  let ?s0 = "s\<lparr>objects := Suc (objects s)\<rparr>"
  let ?s1 = "snd (add_connection a b ?s0)"
  let ?s2 = "snd (add_connection a c ?s1)"
  let ?s3 = "snd (add_connection b c ?s2)"
  have g0: "graph_ok ?s0" "allocated ?s0 a" "allocated ?s0 b" "allocated ?s0 c"
    using g a b c by simp_all
  from graph_ok_add_connection [OF g0(1) g0(2) g0(3)] g0
  have g1: "graph_ok ?s1" "allocated ?s1 a" "allocated ?s1 b" "allocated ?s1 c"
    by (simp_all add: allocated_def)
  from graph_ok_add_connection [OF g1(1) g1(2) g1(4)] g1
  have g2: "graph_ok ?s2" "allocated ?s2 b" "allocated ?s2 c"
    by (simp_all add: allocated_def)
  from graph_ok_add_connection [OF g2(1) g2(2) g2(3)]
  have g3: "graph_ok ?s3" by simp
  have "snd (Triangle_init a b c s) = ?s1 \<or> snd (Triangle_init a b c s) = ?s2 \<or>
        snd (Triangle_init a b c s) = ?s3"
    by (simp add: Triangle_init_def create_edges_def and_then_def returns_def Let_def
        split: prod.splits sum.splits)
  with g1 g2 g3 show ?thesis by auto
qed

lemma reachable_graph_ok: "reachable s \<Longrightarrow> graph_ok s"
proof (induction rule: reachable.induct)
  case (start r)
  show ?case by (rule graph_ok_initial)
next
  case (new_node s x y)
  then show ?case by (simp add: graph_ok_Node_init)
next
  case (connect s a b)
  then show ?case by (simp add: graph_ok_add_connection)
next
  case (disconnect s a b)
  then show ?case by (simp add: graph_ok_remove_connection)
next
  case (midpoint s a b)
  then show ?case by (simp add: graph_ok_create_new_node)
next
  case (new_triangle s a b c)
  then show ?case by (simp add: graph_ok_Triangle_init)
qed

lemma frame_mesh_inv:
  assumes "mesh_inv s" and "graph_ok s'"
    and "\<And>x. coords s' x = coords s x" and "current_id s' = current_id s"
    and "cache s' = cache s"
  shows "mesh_inv s'"
  using assms unfolding mesh_inv_def well_shaped_def cache_ok_def allocated_def by simp

lemma add_connection_frame:
  "coords (snd (add_connection a b s)) x = coords s x"
  "current_id (snd (add_connection a b s)) = current_id s"
  "cache (snd (add_connection a b s)) = cache s"
  by (simp_all add: add_connection_def raises_def returns_def Let_def)

lemma remove_connection_frame:
  "coords (snd (remove_connection a b s)) x = coords s x"
  "current_id (snd (remove_connection a b s)) = current_id s"
  "cache (snd (remove_connection a b s)) = cache s"
  by (simp_all add: remove_connection_def raises_def returns_def Let_def)

lemma mesh_inv_add_connection:
  assumes "mesh_inv s" and "allocated s a" and "allocated s b"
  shows "mesh_inv (snd (add_connection a b s))"
proof (rule frame_mesh_inv [OF assms(1)])
  from assms have "graph_ok s" by (simp add: mesh_inv_def)
  from graph_ok_add_connection [OF this assms(2) assms(3)]
  show "graph_ok (snd (add_connection a b s))" by simp
qed (simp_all add: add_connection_frame)

lemma mesh_inv_remove_connection:
  assumes "mesh_inv s"
  shows "mesh_inv (snd (remove_connection a b s))"
proof (rule frame_mesh_inv [OF assms])
  from assms have "graph_ok s" by (simp add: mesh_inv_def)
  then show "graph_ok (snd (remove_connection a b s))" by (rule graph_ok_remove_connection)
qed (simp_all add: remove_connection_frame)

lemma mesh_inv_create_new_node:
  assumes inv: "mesh_inv s" and a: "allocated s a" and b: "allocated s b"
  shows "mesh_inv (snd (create_new_node a b s))"
proof (cases "linked s a b")
  case True
  from create_new_node_linked [OF inv a b True] show ?thesis by auto
next
  case False
  then have "cache s (sort [a, b]) = None" and "b \<notin> conns s a"
    by (simp_all add: linked_def)
  with inv show ?thesis by (simp add: create_new_node_disconnected)
qed

lemma mesh_inv_Triangle_init:
  assumes inv: "mesh_inv s" and a: "allocated s a" and b: "allocated s b" and c: "allocated s c"
  shows "mesh_inv (snd (Triangle_init a b c s))"
proof -
  let ?s0 = "s\<lparr>objects := Suc (objects s)\<rparr>"
  let ?s1 = "snd (add_connection a b ?s0)"
  let ?s2 = "snd (add_connection a c ?s1)"
  let ?s3 = "snd (add_connection b c ?s2)"
  have g0: "mesh_inv ?s0" "allocated ?s0 a" "allocated ?s0 b" "allocated ?s0 c"
    using inv a b c by simp_all
  from mesh_inv_add_connection [OF g0(1) g0(2) g0(3)] g0
  have g1: "mesh_inv ?s1" "allocated ?s1 a" "allocated ?s1 b" "allocated ?s1 c"
    by (simp_all add: allocated_def add_connection_frame)
  from mesh_inv_add_connection [OF g1(1) g1(2) g1(4)] g1
  have g2: "mesh_inv ?s2" "allocated ?s2 b" "allocated ?s2 c"
    by (simp_all add: allocated_def add_connection_frame)
  from mesh_inv_add_connection [OF g2(1) g2(2) g2(3)]
  have g3: "mesh_inv ?s3" by simp
  have "snd (Triangle_init a b c s) = ?s1 \<or> snd (Triangle_init a b c s) = ?s2 \<or>
        snd (Triangle_init a b c s) = ?s3"
    by (simp add: Triangle_init_def create_edges_def and_then_def returns_def Let_def
        split: prod.splits sum.splits)
  with g1 g2 g3 show ?thesis by auto
qed

text \<open>Every state that the program can reach is a well-formed mesh.\<close>

lemma reachable_mesh_inv: "reachable s \<Longrightarrow> mesh_inv s"
proof (induction rule: reachable.induct)
  case (start r)
  show ?case by (rule mesh_inv_initial)
next
  case (new_node s x y)
  then show ?case by (simp add: mesh_inv_Node_init)
next
  case (connect s a b)
  then show ?case by (simp add: mesh_inv_add_connection)
next
  case (disconnect s a b)
  then show ?case by (simp add: mesh_inv_remove_connection)
next
  case (midpoint s a b)
  then show ?case by (simp add: mesh_inv_create_new_node)
next
  case (new_triangle s a b c)
  then show ?case by (simp add: mesh_inv_Triangle_init)
qed

text \<open>
  C8: in every state that the program can reach by creating nodes and by calling
  \<^verbatim>\<open>add_connection\<close>, \<^verbatim>\<open>remove_connection\<close>, \<^verbatim>\<open>create_new_node\<close> and the constructor of
  triangles, adjacency is symmetric and no node is adjacent to itself.
\<close>

theorem adjacency_symmetric_irreflexive:
  "reachable s \<Longrightarrow>
     (\<forall>a b. has_connection s a b \<longleftrightarrow> has_connection s b a) \<and>
     (\<forall>a. \<not> has_connection s a a)"
  using reachable_graph_ok [of s]
  by (auto simp: graph_ok_def symmetric_def irreflexive_def has_connection_def)

section \<open>The seed of the main program\<close>

lemma seed_unfold:
  "seed s =
     and_then (Triangle_init (Suc (current_id s)) (Suc (Suc (current_id s)))
         (Suc (Suc (Suc (current_id s)))))
       (\<lambda>root_triangle. returns (root_triangle, enqueue FIFO_init (Obj root_triangle) False))
       (snd (Node_init (Fin 600) (Fin 600)
          (snd (Node_init (Fin 350) (Fin 200) (snd (Node_init (Fin 100) (Fin 600) s))))))"
  by (simp add: seed_def Node_init_eq)

lemma seed_ok:
  "\<exists>s'. seed (initial_state r) = (Inr (seed_triangle, \<lparr>items = [Obj seed_triangle]\<rparr>), s') \<and>
     mesh_inv s' \<and> reachable s' \<and> valid_triangle s' seed_triangle \<and> objects s' = 1 \<and>
     cache s' = Map.empty \<and> current_id s' = 3 \<and>
     has_connection s' 1 2 \<and> has_connection s' 2 3 \<and> has_connection s' 1 3"
proof -
  let ?s3 = "snd (Node_init (Fin 600) (Fin 600)
          (snd (Node_init (Fin 350) (Fin 200)
            (snd (Node_init (Fin 100) (Fin 600) (initial_state r))))))"
  have inv: "mesh_inv ?s3"
    by (intro mesh_inv_Node_init mesh_inv_initial)
  have re: "reachable ?s3"
    by (intro reachable.new_node reachable.start)
  have al: "allocated ?s3 1" "allocated ?s3 2" "allocated ?s3 3"
    by (simp_all add: allocated_def)
  have f3: "objects ?s3 = 0" "cache ?s3 = Map.empty" "current_id ?s3 = 3"
    by simp_all
  from Triangle_init_ok [OF inv al] obtain s' where
    run: "Triangle_init 1 2 3 ?s3 =
            (Inr \<lparr>ident = objects ?s3, node_a = 1, node_b = 2, node_c = 3\<rparr>, s')"
    and i: "mesh_inv s'" and e: "extends ?s3 s'" and o: "objects s' = Suc (objects ?s3)"
    and c: "cache s' = cache ?s3" and k: "current_id s' = current_id ?s3"
    and m: "2 \<in> conns s' 1" "3 \<in> conns s' 2" "3 \<in> conns s' 1"
    by auto
  have s': "s' = snd (Triangle_init 1 2 3 ?s3)" using run by simp
  have re': "reachable s'"
    unfolding s' using re al by (rule reachable.new_triangle)
  have al': "allocated s' 1" "allocated s' 2" "allocated s' 3"
    using al e by (simp_all add: extends_allocated)
  have vt: "valid_triangle s' seed_triangle"
    unfolding seed_triangle_def using al' m by (intro valid_triangle_edges) simp_all
  have "seed (initial_state r) = (Inr (seed_triangle, \<lparr>items = [Obj seed_triangle]\<rparr>), s')"
    using run
    by (simp add: seed_unfold and_then_def returns_def enqueue_def FIFO_init_def
        seed_triangle_def numeral_2_eq_2 [symmetric])
  then show ?thesis
    using i re' vt o c k m f3 by (auto simp: has_connection_def)
qed

lemma seed_state_facts:
  "mesh_inv seed_state" "reachable seed_state" "valid_triangle seed_state seed_triangle"
  "objects seed_state = 1" "cache seed_state = Map.empty" "current_id seed_state = 3"
  "has_connection seed_state 1 2" "has_connection seed_state 2 3" "has_connection seed_state 1 3"
  using seed_ok [of "\<lambda>_. 0"] by (auto simp: seed_state_def)

lemma seed_state_nodes:
  "graph_ok seed_state" "allocated seed_state 1" "allocated seed_state 2"
  "allocated seed_state 3" "length (coords seed_state 1) = 2" "length (coords seed_state 2) = 2"
  "length (coords seed_state 3) = 2"
proof -
  show g: "graph_ok seed_state" using seed_state_facts(1) by (simp add: mesh_inv_def)
  show al: "allocated seed_state 1" "allocated seed_state 2" "allocated seed_state 3"
    by (simp_all add: allocated_def seed_state_facts(6))
  from seed_state_facts(1) have "well_shaped seed_state" by (simp add: mesh_inv_def)
  with al show "length (coords seed_state 1) = 2" "length (coords seed_state 2) = 2"
    "length (coords seed_state 3) = 2"
    by (simp_all add: well_shaped_def)
qed

section \<open>The claims on midpoints, subdivision and expansion\<close>

text \<open>
  C1: for two nodes joined by an edge, \<^verbatim>\<open>create_new_node(A, B)\<close> returns a node; a second
  call returns the same node and leaves the state as it is, and so does the call with the
  arguments swapped, the key being the sorted pair of ids. When the first call made the
  node, the edge between \<open>A\<close> and \<open>B\<close> is gone by the second call, which returns all the
  same: a hit does not look at the connection.
\<close>

theorem midpoint_memoized:
  assumes g: "graph_ok s" and a: "allocated s a" and b: "allocated s b"
    and sa: "length (coords s a) = 2" and sb: "length (coords s b) = 2"
    and ab: "has_connection s a b"
  shows "\<exists>m s1. create_new_node a b s = (Inr m, s1) \<and>
           create_new_node a b s1 = (Inr m, s1) \<and>
           create_new_node b a s1 = (Inr m, s1) \<and>
           cache s1 (sort [a, b]) = Some m \<and>
           (cache s (sort [a, b]) = None \<longrightarrow> \<not> has_connection s1 a b)"
proof (cases "cache s (sort [a, b])")
  case (Some m)
  then have "cache s (sort [b, a]) = Some m" by (simp only: sort_pair_commute [of b a])
  with Some show ?thesis
    using create_new_node_hit [of s a b m] create_new_node_hit [of s b a m] by auto
next
  case None
  from ab have ab': "b \<in> conns s a" by (simp add: has_connection_def)
  from create_new_node_miss [OF g a b sa sb ab' None] obtain s1 where
    run: "create_new_node a b s = (Inr (Suc (current_id s)), s1)" and sp: "edge_split s a b s1"
    by blast
  let ?m = "Suc (current_id s)"
  from sp have c: "cache s1 (sort [a, b]) = Some ?m" by (simp add: edge_split_def)
  then have c': "cache s1 (sort [b, a]) = Some ?m" by (simp only: sort_pair_commute [of b a])
  from g ab' have "a \<noteq> b" by (auto simp: graph_ok_def irreflexive_def)
  moreover from a have "a \<noteq> ?m" by (auto simp: allocated_def)
  moreover from b have "b \<noteq> ?m" by (auto simp: allocated_def)
  ultimately have gone: "\<not> has_connection s1 a b"
    using sp by (auto simp: edge_split_def has_connection_def)
  show ?thesis
    using run create_new_node_hit [OF c] create_new_node_hit [OF c'] c gone by blast
qed

theorem midpoint_memoized_witness:
  "graph_ok seed_state \<and> allocated seed_state 1 \<and> allocated seed_state 2 \<and>
   length (coords seed_state 1) = 2 \<and> length (coords seed_state 2) = 2 \<and>
   has_connection seed_state 1 2 \<and>
   (\<exists>m s1. create_new_node 1 2 seed_state = (Inr m, s1) \<and>
      create_new_node 1 2 s1 = (Inr m, s1) \<and>
      create_new_node 2 1 s1 = (Inr m, s1) \<and>
      cache s1 (sort [1, 2]) = Some m \<and>
      (cache seed_state (sort [1, 2]) = None \<longrightarrow> \<not> has_connection s1 1 2))"
  using midpoint_memoized [OF seed_state_nodes(1) seed_state_nodes(2) seed_state_nodes(3)
      seed_state_nodes(5) seed_state_nodes(6) seed_state_facts(7)]
    seed_state_nodes seed_state_facts(7)
  by blast

text \<open>
  C4: on a cache miss, \<^verbatim>\<open>create_new_node(a, b)\<close> raises the \<^verbatim>\<open>ValueError\<close> of the
  precondition when \<open>a\<close> and \<open>b\<close> are not connected. When they are, it returns a node \<open>n\<close>
  that did not exist before and is the only new node, connected to exactly \<open>a\<close> and \<open>b\<close>;
  \<open>a\<close> and \<open>b\<close> have lost each other and gained \<open>n\<close>; no other node has changed its
  connections; and the cache holds \<open>n\<close> under the sorted pair, which is the same for
  \<open>(a, b)\<close> and \<open>(b, a)\<close>.
\<close>

theorem create_new_node_on_miss:
  assumes miss: "cache s (sort [a, b]) = None"
  shows "(\<not> has_connection s a b \<longrightarrow>
            create_new_node a b s =
              (Inl (ValueError
                 [Lit ''Nodes must be connected to create a new node between them.'']), s)) \<and>
         (has_connection s a b \<and> graph_ok s \<and> allocated s a \<and> allocated s b \<and>
          length (coords s a) = 2 \<and> length (coords s b) = 2 \<longrightarrow>
            (\<exists>n s'. create_new_node a b s = (Inr n, s') \<and>
               \<not> allocated s n \<and> (\<forall>x. allocated s' x \<longleftrightarrow> allocated s x \<or> x = n) \<and>
               conns s' n = {a, b} \<and>
               conns s' a = insert n (conns s a - {b}) \<and>
               conns s' b = insert n (conns s b - {a}) \<and>
               (\<forall>x. x \<notin> {a, b, n} \<longrightarrow> conns s' x = conns s x) \<and>
               cache s' = (cache s)(sort [a, b] \<mapsto> n) \<and> sort [a, b] = sort [b, a]))"
proof (intro conjI impI)
  assume "\<not> has_connection s a b"
  then show "create_new_node a b s =
      (Inl (ValueError [Lit ''Nodes must be connected to create a new node between them.'']), s)"
    using create_new_node_disconnected [OF miss] by (simp add: has_connection_def)
next
  assume h: "has_connection s a b \<and> graph_ok s \<and> allocated s a \<and> allocated s b \<and>
          length (coords s a) = 2 \<and> length (coords s b) = 2"
  then have g: "graph_ok s" and a: "allocated s a" and b: "allocated s b"
    and sa: "length (coords s a) = 2" and sb: "length (coords s b) = 2"
    and ab: "b \<in> conns s a"
    by (simp_all add: has_connection_def)
  let ?n = "Suc (current_id s)"
  from create_new_node_miss [OF g a b sa sb ab miss] obtain s' where
    run: "create_new_node a b s = (Inr ?n, s')" and sp: "edge_split s a b s'"
    by blast
  from g ab have neq: "a \<noteq> b" by (auto simp: graph_ok_def irreflexive_def)
  from a b have na: "a \<noteq> ?n" "b \<noteq> ?n" by (auto simp: allocated_def)
  have 1: "\<not> allocated s ?n" by (simp add: allocated_def)
  have 2: "\<forall>x. allocated s' x \<longleftrightarrow> allocated s x \<or> x = ?n"
    using edge_split_allocated [OF sp] by blast
  have 3: "conns s' ?n = {a, b}" "conns s' a = insert ?n (conns s a - {b})"
    "conns s' b = insert ?n (conns s b - {a})"
    "\<forall>x. x \<notin> {a, b, ?n} \<longrightarrow> conns s' x = conns s x"
    using sp neq na by (simp_all add: edge_split_def)
  have 4: "cache s' = (cache s)(sort [a, b] \<mapsto> ?n)"
    using sp by (simp add: edge_split_def)
  show "\<exists>n s'. create_new_node a b s = (Inr n, s') \<and>
               \<not> allocated s n \<and> (\<forall>x. allocated s' x \<longleftrightarrow> allocated s x \<or> x = n) \<and>
               conns s' n = {a, b} \<and>
               conns s' a = insert n (conns s a - {b}) \<and>
               conns s' b = insert n (conns s b - {a}) \<and>
               (\<forall>x. x \<notin> {a, b, n} \<longrightarrow> conns s' x = conns s x) \<and>
               cache s' = (cache s)(sort [a, b] \<mapsto> n) \<and> sort [a, b] = sort [b, a]"
    using run 1 2 3 4 sort_pair_commute [of a b] by blast
qed

lemma two_nodes_facts:
  "cache two_nodes (sort [1, 2]) = None" "\<not> has_connection two_nodes 1 2"
  by (simp_all add: two_nodes_def has_connection_def)

theorem create_new_node_on_miss_witness:
  "cache two_nodes (sort [1, 2]) = None \<and> \<not> has_connection two_nodes 1 2 \<and>
   create_new_node 1 2 two_nodes =
     (Inl (ValueError [Lit ''Nodes must be connected to create a new node between them.'']),
      two_nodes) \<and>
   cache seed_state (sort [1, 2]) = None \<and> has_connection seed_state 1 2 \<and>
   graph_ok seed_state \<and> allocated seed_state 1 \<and> allocated seed_state 2 \<and>
   length (coords seed_state 1) = 2 \<and> length (coords seed_state 2) = 2 \<and>
   (\<exists>n s'. create_new_node 1 2 seed_state = (Inr n, s') \<and>
      \<not> allocated seed_state n \<and>
      (\<forall>x. allocated s' x \<longleftrightarrow> allocated seed_state x \<or> x = n) \<and>
      conns s' n = {1, 2} \<and>
      conns s' 1 = insert n (conns seed_state 1 - {2}) \<and>
      conns s' 2 = insert n (conns seed_state 2 - {1}) \<and>
      (\<forall>x. x \<notin> {1, 2, n} \<longrightarrow> conns s' x = conns seed_state x) \<and>
      cache s' = (cache seed_state)(sort [1, 2] \<mapsto> n) \<and> sort [1, 2] = sort [2, 1 :: nat])"
proof -
  have m: "cache seed_state (sort [1, 2]) = None" by (simp add: seed_state_facts(5))
  show ?thesis
    using create_new_node_on_miss [OF two_nodes_facts(1)] create_new_node_on_miss [OF m]
      two_nodes_facts m seed_state_facts(7) seed_state_nodes
    by blast
qed

text \<open>
  C5: \<^verbatim>\<open>subdivide\<close> on a valid triangle \<open>(A, B, C)\<close> asks for the midpoints \<open>D\<close> of \<open>A, B\<close>,
  \<open>E\<close> of \<open>B, C\<close> and \<open>F\<close> of \<open>A, C\<close> in that order and returns four triangles, in the order
  \<open>(D, B, E)\<close>, \<open>(A, D, F)\<close>, \<open>(F, E, C)\<close>, \<open>(D, E, F)\<close>. Their twelve vertices are \<open>A\<close>, \<open>B\<close>,
  \<open>C\<close> once each and \<open>D\<close>, \<open>E\<close>, \<open>F\<close> three times each, and afterwards \<open>D\<close>, \<open>E\<close> and \<open>F\<close>
  are pairwise connected.
\<close>

theorem subdivide_children:
  assumes inv: "mesh_inv s" and vt: "valid_triangle s t"
  shows "\<exists>D E F s1 s2 s3 s' cs.
           create_new_node (node_a t) (node_b t) s = (Inr D, s1) \<and>
           create_new_node (node_b t) (node_c t) s1 = (Inr E, s2) \<and>
           create_new_node (node_a t) (node_c t) s2 = (Inr F, s3) \<and>
           subdivide t s = (Inr cs, s') \<and> length cs = 4 \<and>
           map (\<lambda>c. (node_a c, node_b c, node_c c)) cs =
             [(D, node_b t, E), (node_a t, D, F), (F, E, node_c t), (D, E, F)] \<and>
           mset (concat (map (\<lambda>c. [node_a c, node_b c, node_c c]) cs)) =
             {#node_a t, node_b t, node_c t#} + repeat_mset 3 {#D, E, F#} \<and>
           has_connection s' D E \<and> has_connection s' E D \<and>
           has_connection s' D F \<and> has_connection s' F D \<and>
           has_connection s' E F \<and> has_connection s' F E"
proof -
  from subdivide_ok [OF inv vt] obtain D E F s1 s2 s3 s' where
    r: "create_new_node (node_a t) (node_b t) s = (Inr D, s1)"
      "create_new_node (node_b t) (node_c t) s1 = (Inr E, s2)"
      "create_new_node (node_a t) (node_c t) s2 = (Inr F, s3)"
    and run: "subdivide t s =
             (Inr [\<lparr>ident = objects s, node_a = D, node_b = node_b t, node_c = E\<rparr>,
                   \<lparr>ident = objects s + 1, node_a = node_a t, node_b = D, node_c = F\<rparr>,
                   \<lparr>ident = objects s + 2, node_a = F, node_b = E, node_c = node_c t\<rparr>,
                   \<lparr>ident = objects s + 3, node_a = D, node_b = E, node_c = F\<rparr>], s')"
    and m: "E \<in> conns s' D" "D \<in> conns s' E" "F \<in> conns s' D" "D \<in> conns s' F"
      "F \<in> conns s' E" "E \<in> conns s' F"
    by blast
  let ?cs = "[\<lparr>ident = objects s, node_a = D, node_b = node_b t, node_c = E\<rparr>,
                   \<lparr>ident = objects s + 1, node_a = node_a t, node_b = D, node_c = F\<rparr>,
                   \<lparr>ident = objects s + 2, node_a = F, node_b = E, node_c = node_c t\<rparr>,
                   \<lparr>ident = objects s + 3, node_a = D, node_b = E, node_c = F\<rparr>]"
  have 1: "length ?cs = 4" by simp
  have 2: "map (\<lambda>c. (node_a c, node_b c, node_c c)) ?cs =
             [(D, node_b t, E), (node_a t, D, F), (F, E, node_c t), (D, E, F)]"
    by simp
  have 3: "mset (concat (map (\<lambda>c. [node_a c, node_b c, node_c c]) ?cs)) =
             {#node_a t, node_b t, node_c t#} + repeat_mset 3 {#D, E, F#}"
    by (simp add: numeral_3_eq_3)
  have 4: "has_connection s' D E" "has_connection s' E D" "has_connection s' D F"
    "has_connection s' F D" "has_connection s' E F" "has_connection s' F E"
    using m by (simp_all add: has_connection_def)
  show ?thesis
    by (rule exI [of _ D], rule exI [of _ E], rule exI [of _ F], rule exI [of _ s1],
        rule exI [of _ s2], rule exI [of _ s3], rule exI [of _ s'], rule exI [of _ ?cs])
      (intro conjI r run 1 2 3 4)
qed

theorem subdivide_children_witness:
  "mesh_inv seed_state \<and> valid_triangle seed_state seed_triangle \<and>
   (\<exists>D E F s1 s2 s3 s' cs.
           create_new_node (node_a seed_triangle) (node_b seed_triangle) seed_state = (Inr D, s1) \<and>
           create_new_node (node_b seed_triangle) (node_c seed_triangle) s1 = (Inr E, s2) \<and>
           create_new_node (node_a seed_triangle) (node_c seed_triangle) s2 = (Inr F, s3) \<and>
           subdivide seed_triangle seed_state = (Inr cs, s') \<and> length cs = 4 \<and>
           map (\<lambda>c. (node_a c, node_b c, node_c c)) cs =
             [(D, node_b seed_triangle, E), (node_a seed_triangle, D, F),
              (F, E, node_c seed_triangle), (D, E, F)] \<and>
           mset (concat (map (\<lambda>c. [node_a c, node_b c, node_c c]) cs)) =
             {#node_a seed_triangle, node_b seed_triangle, node_c seed_triangle#} +
               repeat_mset 3 {#D, E, F#} \<and>
           has_connection s' D E \<and> has_connection s' E D \<and>
           has_connection s' D F \<and> has_connection s' F D \<and>
           has_connection s' E F \<and> has_connection s' F E)"
  using subdivide_children [OF seed_state_facts(1) seed_state_facts(3)]
    seed_state_facts(1) seed_state_facts(3)
  by blast

lemma nodes_of_tree: "1 + 3 * ((4 ^ d - 1) div 3) = (4::nat) ^ d"
proof -
  have "(3::nat) dvd 4 ^ d - 1"
  proof (induction d)
    case 0
    show ?case by simp
  next
    case (Suc d)
    have "(4::nat) ^ Suc d - 1 = 4 * (4 ^ d - 1) + 3"
      by (simp add: algebra_simps)
    with Suc show ?case by (simp add: dvd_add)
  qed
  then have "3 * ((4 ^ d - 1) div 3) = (4::nat) ^ d - 1" by simp
  then show ?thesis by simp
qed

text \<open>
  C3: from a queue that holds one valid seed triangle, the \<open>(4 ^ depth - 1) div 3\<close>
  iterations of the expansion loop all run (no dequeue meets an empty queue and no call
  raises), each subdivides a triangle, and the queue then holds \<open>4 ^ depth\<close> triangles, none
  of which is one of the triangles that were subdivided.
\<close>

theorem expansion_fills_queue:
  assumes inv: "mesh_inv s" and vt: "valid_triangle s t" and old: "ident t < objects s"
  shows "\<exists>s' ts.
           expansion depth s \<lparr>items = [Obj t]\<rparr> = (Inr (), s', \<lparr>items = map Obj ts\<rparr>) \<and>
           length ts = 4 ^ depth \<and>
           length (subdivided ((4 ^ depth - 1) div 3) s \<lparr>items = [Obj t]\<rparr>) =
             (4 ^ depth - 1) div 3 \<and>
           set ts \<inter> set (subdivided ((4 ^ depth - 1) div 3) s \<lparr>items = [Obj t]\<rparr>) = {}"
proof -
  let ?n = "(4 ^ depth - 1) div 3 :: nat"
  have q: "queue_ok s [t]"
    using inv vt old by (simp add: queue_ok_def)
  from expand_ok [OF q, of ?n] obtain s' ts where
    run: "expand ?n s \<lparr>items = map Obj [t]\<rparr> = (Inr (), s', \<lparr>items = map Obj ts\<rparr>)"
    and len: "length ts = length [t] + 3 * ?n"
    and ls: "length (subdivided ?n s \<lparr>items = map Obj [t]\<rparr>) = ?n"
    and dj: "set (subdivided ?n s \<lparr>items = map Obj [t]\<rparr>) \<inter> set ts = {}"
    by blast
  have 1: "expansion depth s \<lparr>items = [Obj t]\<rparr> = (Inr (), s', \<lparr>items = map Obj ts\<rparr>)"
    using run by (simp add: expansion_def)
  have 2: "length ts = 4 ^ depth"
    using len nodes_of_tree [of depth] by simp
  have 3: "length (subdivided ?n s \<lparr>items = [Obj t]\<rparr>) = ?n"
    using ls by simp
  have 4: "set ts \<inter> set (subdivided ?n s \<lparr>items = [Obj t]\<rparr>) = {}"
    using dj by (simp add: Int_commute)
  show ?thesis using 1 2 3 4 by blast
qed

theorem expansion_fills_queue_witness:
  "mesh_inv seed_state \<and> valid_triangle seed_state seed_triangle \<and>
   ident seed_triangle < objects seed_state \<and>
   (\<exists>s' ts.
      expansion 6 seed_state \<lparr>items = [Obj seed_triangle]\<rparr> =
        (Inr (), s', \<lparr>items = map Obj ts\<rparr>) \<and>
      length ts = 4 ^ 6 \<and>
      length (subdivided ((4 ^ 6 - 1) div 3) seed_state \<lparr>items = [Obj seed_triangle]\<rparr>) =
        (4 ^ 6 - 1) div 3 \<and>
      set ts \<inter> set (subdivided ((4 ^ 6 - 1) div 3) seed_state \<lparr>items = [Obj seed_triangle]\<rparr>)
        = {})"
proof -
  have old: "ident seed_triangle < objects seed_state"
    by (simp add: seed_triangle_def seed_state_facts(4))
  show ?thesis
    using expansion_fills_queue [OF seed_state_facts(1) seed_state_facts(3) old, of 6]
      seed_state_facts(1) seed_state_facts(3) old
    by blast
qed

theorem adjacency_symmetric_irreflexive_witness:
  "reachable (snd (create_new_node 1 2 seed_state)) \<and>
   (\<forall>a b. has_connection (snd (create_new_node 1 2 seed_state)) a b
      = has_connection (snd (create_new_node 1 2 seed_state)) b a) \<and>
   (\<forall>a. \<not> has_connection (snd (create_new_node 1 2 seed_state)) a a)"
proof -
  have r: "reachable (snd (create_new_node 1 2 seed_state))"
    using seed_state_facts(2) seed_state_nodes(2) seed_state_nodes(3)
    by (rule reachable.midpoint)
  show ?thesis
    using adjacency_symmetric_irreflexive [OF r] r by blast
qed

text \<open>
  C10: on a cache miss, the failure of the precondition is raised as it is; every exception
  that the body of the \<^verbatim>\<open>try\<close> block raises comes out as a \<^verbatim>\<open>ValueError\<close> whose message is
  the fixed prefix followed by the text of that exception; and so whatever
  \<^verbatim>\<open>create_new_node\<close> raises is a \<^verbatim>\<open>ValueError\<close>.
\<close>

theorem failures_are_wrapped:
  assumes miss: "cache s (sort [a, b]) = None"
  shows "(\<not> has_connection s a b \<longrightarrow>
            create_new_node a b s =
              (Inl (ValueError
                 [Lit ''Nodes must be connected to create a new node between them.'']), s)) \<and>
         (has_connection s a b \<longrightarrow>
            (\<forall>e s'. create_new_node_try a b s = (Inl e, s') \<longrightarrow>
               create_new_node a b s =
                 (Inl (ValueError
                    (Lit ''An error occurred while creating a new node: '' # exn_str e)), s'))) \<and>
         (\<forall>e s'. create_new_node a b s = (Inl e, s') \<longrightarrow> (\<exists>m. e = ValueError m))"
proof (intro conjI impI allI)
  assume "\<not> has_connection s a b"
  then show "create_new_node a b s =
      (Inl (ValueError [Lit ''Nodes must be connected to create a new node between them.'']), s)"
    using create_new_node_disconnected [OF miss] by (simp add: has_connection_def)
next
  fix e s'
  assume "has_connection s a b" and "create_new_node_try a b s = (Inl e, s')"
  then show "create_new_node a b s =
      (Inl (ValueError (Lit ''An error occurred while creating a new node: '' # exn_str e)), s')"
    using create_new_node_wraps [OF miss] by (simp add: has_connection_def)
next
  fix e s'
  assume "create_new_node a b s = (Inl e, s')"
  then show "\<exists>m. e = ValueError m"
    using miss
    by (auto simp: create_new_node_def cache_nodes_def create_new_node_func_def raises_def
        returns_def split: if_splits prod.splits sum.splits)
qed

theorem failures_are_wrapped_witness:
  "cache misshapen (sort [1, 2]) = None \<and> has_connection misshapen 1 2 \<and>
   create_new_node_try 1 2 misshapen =
     (Inl (ValueError [Lit ''Both 'start' and 'end' must be 2-dimensional vectors.'']),
      misshapen) \<and>
   create_new_node 1 2 misshapen =
     (Inl (ValueError [Lit ''An error occurred while creating a new node: '',
                       Lit ''Both 'start' and 'end' must be 2-dimensional vectors.'']),
      misshapen)"
proof -
  have m: "cache misshapen (sort [1, 2]) = None"
    by (simp add: misshapen_def seed_state_facts(5))
  have c: "has_connection misshapen 1 2"
    using seed_state_facts(7) by (simp add: misshapen_def has_connection_def conns_def)
  have "length (coords misshapen 1) \<noteq> 2"
    by (simp add: misshapen_def coords_def)
  then have t: "create_new_node_try 1 2 misshapen =
     (Inl (ValueError [Lit ''Both 'start' and 'end' must be 2-dimensional vectors.'']),
      misshapen)"
    by (intro create_new_node_try_shape_error) simp
  show ?thesis
    using failures_are_wrapped [OF m] m c t by simp
qed

end
